theory Spec2Isabelle
  imports Main "HOL-Library.Char_ord" "HOL-Library.List_Lexorder"
begin

section \<open>Strings\<close>

text \<open>
  Python strings are modelled as \<open>string\<close>: a list of characters, each one a code point
  from 0 to 255 (ASCII and Latin-1).  Among these code points \<open>\d\<close> holds the digits 0 to
  9 and \<open>[a-z]\<close> under \<^verbatim>\<open>re.I\<close> the letters a to z and A to Z, and a pattern character
  under \<^verbatim>\<open>re.I\<close> matches itself and its other case.  \<^verbatim>\<open>str.lower\<close> maps the capitals,
  which are A to Z and the code points 0xC0 to 0xDE but the sign 0xD7, to the code point
  32 above, and leaves every other character alone.  Strings are compared as Python
  compares them, lexicographically by code point; tuples of strings are lists of
  strings, compared lexicographically again.
\<close>

definition is_digit :: "char \<Rightarrow> bool" where
  "is_digit c \<longleftrightarrow> c \<in> set ''0123456789''"

definition is_alpha :: "char \<Rightarrow> bool" where
  "is_alpha c \<longleftrightarrow> c \<in> set ''abcdefghijklmnopqrstuvwxyzABCDEFGHIJKLMNOPQRSTUVWXYZ''"

definition is_upper :: "char \<Rightarrow> bool" where
  "is_upper c \<longleftrightarrow>
     (CHR ''A'' \<le> c \<and> c \<le> CHR ''Z'')
     \<or> (CHR 0xC0 \<le> c \<and> c \<le> CHR 0xDE \<and> c \<noteq> CHR 0xD7)"

definition lower_char :: "char \<Rightarrow> char" where
  "lower_char c = (if is_upper c then char_of (of_char c + (32 :: nat)) else c)"

text \<open>\<^verbatim>\<open>s.lower()\<close>\<close>

definition lower :: "string \<Rightarrow> string" where
  "lower s = map lower_char s"

text \<open>\<^verbatim>\<open>s.startswith(p)\<close>\<close>

definition startswith :: "string \<Rightarrow> string \<Rightarrow> bool" where
  "startswith s p \<longleftrightarrow> take (length p) s = p"

text \<open>
  \<^verbatim>\<open>s.zfill(width)\<close>: zeros are inserted on the left, after a leading sign if there
  is one, until the string has \<open>width\<close> characters.
\<close>

definition zfill :: "nat \<Rightarrow> string \<Rightarrow> string" where
  "zfill width s =
     (case s of
        c # cs \<Rightarrow>
          if c = CHR ''+'' \<or> c = CHR ''-''
          then c # replicate (width - length s) CHR ''0'' @ cs
          else replicate (width - length s) CHR ''0'' @ s
      | [] \<Rightarrow> replicate width CHR ''0'')"

section \<open>Version keys\<close>

text \<open>
  \<^verbatim>\<open>component_re = re.compile(r"(\d+ | [a-z]+ | \.| -)", re.I | re.VERBOSE)\<close>

  \<^verbatim>\<open>component_re.split(s)\<close> scans \<open>s\<close> from the left.  A match is a maximal run of
  digits, a maximal run of letters, one dot or one dash; the pattern has one capturing
  group, so the result alternates the text between two matches (possibly empty) with
  the text of a match, and ends with the text after the last match.  The first argument
  of \<open>component_re_split_from\<close> is the unmatched text collected since the last match.
\<close>

function component_re_split_from :: "string \<Rightarrow> string \<Rightarrow> string list" where
  "component_re_split_from acc [] = [acc]"
| "component_re_split_from acc (c # cs) =
     (if is_digit c then
        acc # (c # takeWhile is_digit cs) # component_re_split_from [] (dropWhile is_digit cs)
      else if is_alpha c then
        acc # (c # takeWhile is_alpha cs) # component_re_split_from [] (dropWhile is_alpha cs)
      else if c = CHR ''.'' \<or> c = CHR ''-'' then
        acc # [c] # component_re_split_from [] cs
      else component_re_split_from (acc @ [c]) cs)"
  by pat_completeness auto
termination
  by (relation "measure (\<lambda>(acc, s). length s)")
     (auto simp: length_dropWhile_le less_Suc_eq_le)

definition component_re_split :: "string \<Rightarrow> string list" where
  "component_re_split s = component_re_split_from [] s"

text \<open>
  \<^verbatim>\<open>replace = {"pre": "c", "preview": "c", "-": "final-", "rc": "c", "dev": "@"}.get\<close>,
  called as \<^verbatim>\<open>replace(part, part)\<close>.
\<close>

definition replace :: "string \<Rightarrow> string" where
  "replace part =
     (case map_of [(''pre'', ''c''), (''preview'', ''c''), (''-'', ''final-''),
                   (''rc'', ''c''), (''dev'', ''@'')] part of
        None \<Rightarrow> part
      | Some v \<Rightarrow> v)"

text \<open>
  \<^verbatim>\<open>part[:1] in "0123456789"\<close> is a substring test: it holds for the empty string and
  for a string whose first character is a digit.
\<close>

definition first_in_digits :: "string \<Rightarrow> bool" where
  "first_in_digits part \<longleftrightarrow> (case part of [] \<Rightarrow> True | c # _ \<Rightarrow> is_digit c)"

text \<open>
  The generator \<^verbatim>\<open>_parse_version_parts\<close>, as the list of the values it yields:
  \<open>parse_version_parts_from\<close> is its loop over the pieces of the split, followed by
  the final \<^verbatim>\<open>yield "*final"\<close>.
\<close>

fun parse_version_parts_from :: "string list \<Rightarrow> string list" where
  "parse_version_parts_from [] = [''*final'']"
| "parse_version_parts_from (p # ps) =
     (let part = replace p in
      if part \<in> set ['''', ''.''] then parse_version_parts_from ps
      else if first_in_digits part then zfill 8 part # parse_version_parts_from ps
      else (CHR ''*'' # part) # parse_version_parts_from ps)"

definition parse_version_parts :: "string \<Rightarrow> string list" where
  "parse_version_parts s = parse_version_parts_from (component_re_split s)"

text \<open>
  The inner loop of \<^verbatim>\<open>parse_version\<close>:
  \<^verbatim>\<open>while parts and parts[-1] == "00000000": parts.pop()\<close>
\<close>

function pop_zeros :: "string list \<Rightarrow> string list" where
  "pop_zeros parts =
     (if parts \<noteq> [] \<and> last parts = ''00000000'' then pop_zeros (butlast parts) else parts)"
  by pat_completeness auto
termination
  by (relation "measure length") auto

declare pop_zeros.simps [simp del]

text \<open>The outer loop of \<^verbatim>\<open>parse_version\<close> over the yielded parts.\<close>

fun parse_version_loop :: "string list \<Rightarrow> string list \<Rightarrow> string list" where
  "parse_version_loop parts [] = parts"
| "parse_version_loop parts (part # rest) =
     parse_version_loop
       ((if startswith part ''*'' then pop_zeros parts else parts) @ [part]) rest"

text \<open>\<^verbatim>\<open>parse_version(s)\<close>; the tuple it returns is the list of its components.\<close>

definition parse_version :: "string \<Rightarrow> string list" where
  "parse_version s = parse_version_loop [] (parse_version_parts (lower s))"

text \<open>
  The effect of the pops on a key, as a check that can be run on it: no token
  \<open>00000000\<close> stands immediately before a token that starts with the sentinel.
\<close>

fun no_zero_before_sentinel :: "string list \<Rightarrow> bool" where
  "no_zero_before_sentinel (z # t # ts) =
     (\<not> (z = ''00000000'' \<and> startswith t ''*'') \<and> no_zero_before_sentinel (t # ts))"
| "no_zero_before_sentinel _ = True"

section \<open>Guessing the name and version from a file name\<close>

subsection \<open>String operations\<close>

text \<open>\<^verbatim>\<open>s.endswith(p)\<close>\<close>

definition endswith :: "string \<Rightarrow> string \<Rightarrow> bool" where
  "endswith s p \<longleftrightarrow> length p \<le> length s \<and> drop (length s - length p) s = p"

text \<open>
  \<^verbatim>\<open>s.rstrip(chars)\<close> removes from the end of \<open>s\<close> every character that occurs in
  \<open>chars\<close>, until it meets one that does not: \<open>chars\<close> is a set of characters, not a
  suffix.
\<close>

definition rstrip :: "string \<Rightarrow> string \<Rightarrow> string" where
  "rstrip s chars = rev (dropWhile (\<lambda>c. c \<in> set chars) (rev s))"

text \<open>\<^verbatim>\<open>os.path.basename(path)\<close> of \<^verbatim>\<open>posixpath\<close>: the text after the last slash.\<close>

definition basename :: "string \<Rightarrow> string" where
  "basename path = rev (takeWhile (\<lambda>c. c \<noteq> CHR ''/'') (rev path))"

text \<open>
  \<^verbatim>\<open>s.split("-", 1)\<close> and \<^verbatim>\<open>s.rsplit("-", 1)\<close> for a string \<open>s\<close> that holds a dash:
  the texts before and after its first dash, and before and after its last dash.
\<close>

definition split_first_dash :: "string \<Rightarrow> string \<times> string" where
  "split_first_dash s =
     (takeWhile (\<lambda>c. c \<noteq> CHR ''-'') s, drop 1 (dropWhile (\<lambda>c. c \<noteq> CHR ''-'') s))"

definition rsplit_last_dash :: "string \<Rightarrow> string \<times> string" where
  "rsplit_last_dash s =
     (rev (drop 1 (dropWhile (\<lambda>c. c \<noteq> CHR ''-'') (rev s))),
      rev (takeWhile (\<lambda>c. c \<noteq> CHR ''-'') (rev s)))"

subsection \<open>Regular expressions\<close>

text \<open>
  The patterns of the module are translated by hand, with the semantics of Python's
  \<^verbatim>\<open>re\<close>: a search tries the positions of the string from the left and stops at the
  first where the pattern matches; at a position the alternatives are tried in their
  order; a lazy quantifier tries the shortest text first and a greedy one the longest;
  \<open>.\<close> matches every character but the newline; \<open>$\<close> matches at the end of the string
  and before a newline that ends the string.
\<close>

definition newline :: char where
  "newline = CHR 0x0A"

definition dollar :: "string \<Rightarrow> bool" where
  "dollar s \<longleftrightarrow> s = [] \<or> s = [newline]"

text \<open>A pattern character under \<^verbatim>\<open>re.I\<close>, a set \<open>[...]\<close>, and a literal under \<^verbatim>\<open>re.I\<close>.\<close>

definition ichar :: "char \<Rightarrow> char \<Rightarrow> bool" where
  "ichar a c \<longleftrightarrow> lower_char c = lower_char a"

definition one_of :: "string \<Rightarrow> char \<Rightarrow> bool" where
  "one_of chars c \<longleftrightarrow> c \<in> set chars"

definition ilit :: "string \<Rightarrow> (char \<Rightarrow> bool) list" where
  "ilit s = map ichar s"

text \<open>
  A sequence of single-character patterns matched at the start of a string: the text
  after the match, if there is a match.
\<close>

fun match_seq :: "(char \<Rightarrow> bool) list \<Rightarrow> string \<Rightarrow> string option" where
  "match_seq [] s = Some s"
| "match_seq (p # ps) [] = None"
| "match_seq (p # ps) (c # cs) = (if p c then match_seq ps cs else None)"

text \<open>
  \<^verbatim>\<open>rx.search(s)\<close> for a pattern given by its matcher at a position, \<open>m\<close>: the text
  before the leftmost match, with what \<open>m\<close> returns there.
\<close>

fun search_from :: "(string \<Rightarrow> 'a option) \<Rightarrow> string \<Rightarrow> string \<Rightarrow> (string \<times> 'a) option" where
  "search_from m pre [] = map_option (Pair pre) (m [])"
| "search_from m pre (c # cs) =
     (case m (c # cs) of
        Some r \<Rightarrow> Some (pre, r)
      | None \<Rightarrow> search_from m (pre @ [c]) cs)"

definition search :: "(string \<Rightarrow> 'a option) \<Rightarrow> string \<Rightarrow> (string \<times> 'a) option" where
  "search m s = search_from m [] s"

text \<open>
  \<^verbatim>\<open>_archive_suffix_rx = re.compile(
      r"(\.zip|\.tar\.gz|\.tgz|\.tar\.bz2|-py[23]\.\d-.*|"
      r"\.win-amd64-py[23]\.\d\..*|\.win32-py[23]\.\d\..*|\.egg)$", re.I)\<close>

  Each alternative is a sequence of single characters, followed or not by \<open>.*\<close>; the
  \<open>$\<close> closes all of them.  A greedy \<open>.*\<close> before \<open>$\<close> runs to the first newline, and
  giving characters back cannot help \<open>$\<close>.  The matcher returns the text left after the
  match, which is empty or one newline.
\<close>

definition archive_suffix_alternatives :: "((char \<Rightarrow> bool) list \<times> bool) list" where
  "archive_suffix_alternatives =
     [(ilit ''.zip'', False),
      (ilit ''.tar.gz'', False),
      (ilit ''.tgz'', False),
      (ilit ''.tar.bz2'', False),
      (ilit ''-py'' @ [one_of ''23'', ichar CHR ''.'', is_digit, ichar CHR ''-''], True),
      (ilit ''.win-amd64-py'' @ [one_of ''23'', ichar CHR ''.'', is_digit, ichar CHR ''.''], True),
      (ilit ''.win32-py'' @ [one_of ''23'', ichar CHR ''.'', is_digit, ichar CHR ''.''], True),
      (ilit ''.egg'', False)]"

fun match_alternatives :: "((char \<Rightarrow> bool) list \<times> bool) list \<Rightarrow> string \<Rightarrow> string option" where
  "match_alternatives [] s = None"
| "match_alternatives ((ps, dot_star) # alts) s =
     (case match_seq ps s of
        None \<Rightarrow> match_alternatives alts s
      | Some rest \<Rightarrow>
          let rest' = (if dot_star then dropWhile (\<lambda>c. c \<noteq> newline) rest else rest)
          in if dollar rest' then Some rest' else match_alternatives alts s)"

definition archive_suffix_rx :: "string \<Rightarrow> string option" where
  "archive_suffix_rx s = match_alternatives archive_suffix_alternatives s"

text \<open>
  \<^verbatim>\<open>_archive_suffix_rx.sub("", path)\<close>: the match is removed; the text after it is
  shorter than any match, so there is no second one.
\<close>

definition archive_suffix_sub :: "string \<Rightarrow> string" where
  "archive_suffix_sub path =
     (case search archive_suffix_rx path of
        None \<Rightarrow> path
      | Some (pre, rest) \<Rightarrow> pre @ rest)"

text \<open>
  \<^verbatim>\<open>_pkgname_re = re.compile(r"-\d+[a-z_.!+]", re.I)\<close>

  The greedy \<open>\d+\<close> takes the whole run of digits, and the set that follows holds no
  digit.  \<^verbatim>\<open>_pkgname_re.split(path)[0]\<close> is the text before the leftmost match, or the
  whole of \<open>path\<close>.
\<close>

definition pkgname_re :: "string \<Rightarrow> unit option" where
  "pkgname_re s =
     (case s of
        c # d # rest \<Rightarrow>
          if c = CHR ''-'' \<and> is_digit d then
            (case dropWhile is_digit rest of
               [] \<Rightarrow> None
             | e # _ \<Rightarrow> if is_alpha e \<or> e \<in> set ''_.!+'' then Some () else None)
          else None
      | _ \<Rightarrow> None)"

definition pkgname_re_split_0 :: "string \<Rightarrow> string" where
  "pkgname_re_split_0 path =
     (case search pkgname_re path of None \<Rightarrow> path | Some (pre, _) \<Rightarrow> pre)"

text \<open>
  \<^verbatim>\<open>_pkgname_parts_re = re.compile(
      r"[\.\-](?=cp\d|py\d|macosx|linux|sunos|solaris|irix|aix|cygwin|win)", re.I)\<close>

  A dot or a dash, with a lookahead for one of the tags.
\<close>

definition pkgname_parts_lookahead :: "(char \<Rightarrow> bool) list list" where
  "pkgname_parts_lookahead =
     [ilit ''cp'' @ [is_digit], ilit ''py'' @ [is_digit], ilit ''macosx'', ilit ''linux'',
      ilit ''sunos'', ilit ''solaris'', ilit ''irix'', ilit ''aix'', ilit ''cygwin'',
      ilit ''win'']"

definition pkgname_parts_re :: "string \<Rightarrow> unit option" where
  "pkgname_parts_re s =
     (case s of
        c # rest \<Rightarrow>
          if (c = CHR ''.'' \<or> c = CHR ''-'')
             \<and> list_ex (\<lambda>ps. match_seq ps rest \<noteq> None) pkgname_parts_lookahead
          then Some () else None
      | [] \<Rightarrow> None)"

definition pkgname_parts_re_split_0 :: "string \<Rightarrow> string" where
  "pkgname_parts_re_split_0 ver_spec =
     (case search pkgname_parts_re ver_spec of None \<Rightarrow> ver_spec | Some (pre, _) \<Rightarrow> pre)"

text \<open>
  A lazy \<open>.*?\<close> followed by the rest of a pattern, \<open>k\<close>, which is given the text taken
  by the dots and the text that remains: the shortest text is tried first, and one more
  character, if it is not a newline, each time the rest fails.  \<open>lazy_plus\<close> is
  \<open>.+?\<close> and \<open>lazy_digit_dots\<close> is \<open>\d.*?\<close>.
\<close>

fun lazy_dots :: "string \<Rightarrow> string \<Rightarrow> (string \<Rightarrow> string \<Rightarrow> 'a option) \<Rightarrow> 'a option" where
  "lazy_dots taken [] k = k taken []"
| "lazy_dots taken (c # cs) k =
     (case k taken (c # cs) of
        Some r \<Rightarrow> Some r
      | None \<Rightarrow> if c = newline then None else lazy_dots (taken @ [c]) cs k)"

definition lazy_plus :: "string \<Rightarrow> (string \<Rightarrow> string \<Rightarrow> 'a option) \<Rightarrow> 'a option" where
  "lazy_plus s k =
     (case s of
        [] \<Rightarrow> None
      | c # cs \<Rightarrow> if c = newline then None else lazy_dots [c] cs k)"

definition lazy_digit_dots :: "string \<Rightarrow> (string \<Rightarrow> string \<Rightarrow> 'a option) \<Rightarrow> 'a option" where
  "lazy_digit_dots s k =
     (case s of
        [] \<Rightarrow> None
      | c # cs \<Rightarrow> if is_digit c then lazy_dots [c] cs k else None)"

text \<open>A dash followed by the rest of a pattern.\<close>

definition dash_then :: "string \<Rightarrow> (string \<Rightarrow> 'a option) \<Rightarrow> 'a option" where
  "dash_then s k = (case s of [] \<Rightarrow> None | c # cs \<Rightarrow> if c = CHR ''-'' then k cs else None)"

text \<open>
  \<^verbatim>\<open>wheel_file_re = re.compile(
      r"""^(?P<namever>(?P<name>.+?)-(?P<ver>\d.*?))
      ((-(?P<build>\d.*?))?-(?P<pyver>.+?)-(?P<abi>.+?)-(?P<plat>.+?)
      \.whl|\.dist-info)$""", re.VERBOSE)\<close>

  \<open>wheel_tags\<close> is \<^verbatim>\<open>-(?P<pyver>.+?)-(?P<abi>.+?)-(?P<plat>.+?)\.whl\<close> followed by
  \<open>$\<close>; the three groups are not read by the caller, so only the success is kept.
\<close>

definition wheel_tags :: "string \<Rightarrow> unit option" where
  "wheel_tags s =
     dash_then s (\<lambda>s. lazy_plus s (\<lambda>pyver s.
     dash_then s (\<lambda>s. lazy_plus s (\<lambda>abi s.
     dash_then s (\<lambda>s. lazy_plus s (\<lambda>plat s.
       (case match_seq (map (\<lambda>a c. c = a) ''.whl'') s of
          None \<Rightarrow> None
        | Some rest \<Rightarrow> if dollar rest then Some () else None)))))))"

text \<open>
  What follows the group \<open>ver\<close>: the first alternative with the optional group
  \<open>build\<close>, which is greedy and so tried first, then the same alternative without it,
  then \<^verbatim>\<open>\.dist-info\<close>.  The result is the value of the group \<open>build\<close>, which is
  \<^verbatim>\<open>None\<close> when the group took no part in the match.
\<close>

definition wheel_after_ver :: "string \<Rightarrow> string option option" where
  "wheel_after_ver s =
     (case dash_then s (\<lambda>s. lazy_digit_dots s (\<lambda>build s.
             map_option (\<lambda>_. Some build) (wheel_tags s))) of
        Some r \<Rightarrow> Some r
      | None \<Rightarrow>
          (case wheel_tags s of
             Some _ \<Rightarrow> Some None
           | None \<Rightarrow>
               (case match_seq (map (\<lambda>a c. c = a) ''.dist-info'') s of
                  None \<Rightarrow> None
                | Some rest \<Rightarrow> if dollar rest then Some None else None)))"

text \<open>\<^verbatim>\<open>wheel_file_re.match(basename)\<close>: the groups \<open>name\<close>, \<open>ver\<close> and \<open>build\<close>.\<close>

definition wheel_file_re :: "string \<Rightarrow> (string \<times> string \<times> string option) option" where
  "wheel_file_re s =
     lazy_plus s (\<lambda>name s.
     dash_then s (\<lambda>s. lazy_digit_dots s (\<lambda>ver s.
       map_option (\<lambda>build. (name, ver, build)) (wheel_after_ver s))))"

subsection \<open>The guesser\<close>

text \<open>
  What \<^verbatim>\<open>guess_pkgname_and_version\<close> returns: \<^verbatim>\<open>None\<close>, or a pair whose components
  are \<^verbatim>\<open>None\<close> or strings.  \<open>truthy\<close> is the test \<^verbatim>\<open>if res\<close> on such a value (a tuple
  of two components is true), and \<open>truthy_name\<close> the test \<^verbatim>\<open>if pkgname\<close> on a
  component.
\<close>

datatype guess_result = PyNone | Tuple2 "string option" "string option"

definition truthy :: "guess_result \<Rightarrow> bool" where
  "truthy res \<longleftrightarrow> (case res of PyNone \<Rightarrow> False | Tuple2 _ _ \<Rightarrow> True)"

definition truthy_name :: "string option \<Rightarrow> bool" where
  "truthy_name x \<longleftrightarrow> (case x of None \<Rightarrow> False | Some s \<Rightarrow> s \<noteq> [])"

text \<open>\<^verbatim>\<open>_guess_pkgname_and_version_wheel(basename)\<close>\<close>

definition guess_pkgname_and_version_wheel :: "string \<Rightarrow> guess_result" where
  "guess_pkgname_and_version_wheel basename' =
     (case wheel_file_re basename' of
        None \<Rightarrow> Tuple2 None None
      | Some (name, ver, build) \<Rightarrow>
          if truthy_name build then Tuple2 (Some name) (Some (ver @ ''-'' @ the build))
          else Tuple2 (Some name) (Some ver))"

text \<open>\<^verbatim>\<open>guess_pkgname_and_version(path)\<close>\<close>

definition guess_pkgname_and_version :: "string \<Rightarrow> guess_result" where
  "guess_pkgname_and_version path0 =
     (let path1 = basename path0;
          path = (if endswith path1 ''.asc'' then rstrip path1 ''.asc'' else path1)
      in if endswith path ''.whl'' then guess_pkgname_and_version_wheel path
         else if search archive_suffix_rx path = None then PyNone
         else
           let path = archive_suffix_sub path in
           if CHR ''-'' \<notin> set path then Tuple2 (Some path) (Some '''')
           else if count_list path CHR ''-'' = 1 then
             (case split_first_dash path of (pkgname, version) \<Rightarrow>
                Tuple2 (Some pkgname) (Some version))
           else if CHR ''.'' \<notin> set path then
             (case rsplit_last_dash path of (pkgname, version) \<Rightarrow>
                Tuple2 (Some pkgname) (Some version))
           else
             let pkgname = pkgname_re_split_0 path;
                 ver_spec = drop (length pkgname + 1) path;
                 version = pkgname_parts_re_split_0 ver_spec
             in Tuple2 (Some pkgname) (Some version))"

text \<open>
  The file names of the wheel grammar
  \<^verbatim>\<open>name-version(-build)?-pythontag-abitag-platformtag.whl\<close>, built from their
  components.  A component is not empty and holds no dash, which separates the
  components, no slash and no newline; the version and the build tag begin with a
  digit.
\<close>

definition wheel_component :: "string \<Rightarrow> bool" where
  "wheel_component s \<longleftrightarrow>
     s \<noteq> [] \<and> list_all (\<lambda>c. c \<noteq> CHR ''-'' \<and> c \<noteq> CHR ''/'' \<and> c \<noteq> newline) s"

definition wheel_numbered :: "string \<Rightarrow> bool" where
  "wheel_numbered s \<longleftrightarrow> wheel_component s \<and> is_digit (hd s)"

definition wheel_filename ::
  "string \<Rightarrow> string \<Rightarrow> string option \<Rightarrow> string \<Rightarrow> string \<Rightarrow> string \<Rightarrow> string" where
  "wheel_filename name ver build pyver abi plat =
     name @ ''-'' @ ver @ (case build of None \<Rightarrow> [] | Some b \<Rightarrow> ''-'' @ b)
       @ ''-'' @ pyver @ ''-'' @ abi @ ''-'' @ plat @ ''.whl''"

section \<open>Package names\<close>

text \<open>
  \<^verbatim>\<open>re.sub(r"[-_.]+", "-", name)\<close>: scanning from the left, every maximal run of the
  characters \<open>-\<close>, \<open>_\<close> and \<open>.\<close> is replaced by one \<open>-\<close>; the other characters are
  copied.
\<close>

definition is_separator :: "char \<Rightarrow> bool" where
  "is_separator c \<longleftrightarrow> c \<in> set ''-_.''"

function sub_separators :: "string \<Rightarrow> string" where
  "sub_separators [] = []"
| "sub_separators (c # cs) =
     (if is_separator c then CHR ''-'' # sub_separators (dropWhile is_separator cs)
      else c # sub_separators cs)"
  by pat_completeness auto
termination
  by (relation "measure length") (auto simp: length_dropWhile_le less_Suc_eq_le)

text \<open>\<^verbatim>\<open>normalize_pkgname(name)\<close>\<close>

definition normalize_pkgname :: "string \<Rightarrow> string" where
  "normalize_pkgname name = lower (sub_separators name)"

text \<open>
  What the specification says of a normalized name, as checks on a string: it has no
  capital, and its only separators are single dashes.
\<close>

definition is_lowercase :: "string \<Rightarrow> bool" where
  "is_lowercase s \<longleftrightarrow> list_all (\<lambda>c. \<not> is_upper c) s"

fun single_dashes :: "string \<Rightarrow> bool" where
  "single_dashes (c # d # cs) =
     (c \<noteq> CHR ''_'' \<and> c \<noteq> CHR ''.'' \<and> \<not> (c = CHR ''-'' \<and> is_separator d)
      \<and> single_dashes (d # cs))"
| "single_dashes [c] = (c \<noteq> CHR ''_'' \<and> c \<noteq> CHR ''.'')"
| "single_dashes [] = True"

section \<open>Package records\<close>

text \<open>\<^verbatim>\<open>s.replace("\\", "/")\<close>\<close>

definition backslash :: char where
  "backslash = CHR 0x5C"

definition replace_backslash :: "string \<Rightarrow> string" where
  "replace_backslash s = map (\<lambda>c. if c = backslash then CHR ''/'' else c) s"

text \<open>
  The class \<^verbatim>\<open>PkgFile\<close>.  An argument of the constructor that defaults to \<^verbatim>\<open>None\<close>
  is an option.  The slot \<^verbatim>\<open>_fname_and_hash\<close> is not assigned by the constructor:
  \<open>fname_and_hash_slot\<close> is \<open>None\<close> while the attribute does not exist
  (\<^verbatim>\<open>hasattr\<close> is false) and \<open>Some v\<close> once it holds the value \<open>v\<close>, which is itself
  \<^verbatim>\<open>None\<close> or a string.
\<close>

datatype PkgFile = PkgFile
  (fn: "string option")
  (root: "string option")
  (fname_and_hash_slot: "string option option")
  (relfn: "string option")
  (relfn_unix: "string option")
  (pkgname_norm: string)
  (pkgname: string)
  (version: string)
  (parsed_version: "string list")
  (replaces: "PkgFile option")

text \<open>\<^verbatim>\<open>PkgFile.__init__\<close>\<close>

definition PkgFile_init ::
  "string \<Rightarrow> string \<Rightarrow> string option \<Rightarrow> string option \<Rightarrow> string option \<Rightarrow> PkgFile option
   \<Rightarrow> PkgFile" where
  "PkgFile_init pkgname' version' fn' root' relfn' replaces' =
     PkgFile fn' root' None relfn' (map_option replace_backslash relfn')
       (normalize_pkgname pkgname') pkgname' version' (parse_version version') replaces'"

text \<open>The assignment \<^verbatim>\<open>self._fname_and_hash = v\<close>.\<close>

definition set_fname_and_hash :: "string option \<Rightarrow> PkgFile \<Rightarrow> PkgFile" where
  "set_fname_and_hash v self =
     PkgFile (fn self) (root self) (Some v) (relfn self) (relfn_unix self)
       (pkgname_norm self) (pkgname self) (version self) (parsed_version self) (replaces self)"

text \<open>
  \<^verbatim>\<open>digest_file\<close> reads a file and is bound at import time either to the cache manager
  or to \<^verbatim>\<open>_digest_file\<close>; it is a parameter of the model.  It is given the path and the
  algorithm and returns the hexadecimal digest, or raises.
\<close>

datatype error = OSError | ValueError | TypeError

type_synonym digest_file = "string option \<Rightarrow> string \<Rightarrow> error + string"

text \<open>An f-string field \<^verbatim>\<open>{x}\<close> for a value that is \<^verbatim>\<open>None\<close> or a string.\<close>

definition format_field :: "string option \<Rightarrow> string" where
  "format_field x = (case x of None \<Rightarrow> ''None'' | Some s \<Rightarrow> s)"

text \<open>
  \<^verbatim>\<open>PkgFile.fname_and_hash(self, hash_algo)\<close>: the value returned, or the exception
  raised by \<^verbatim>\<open>digest_file\<close>, together with the record after the call.
\<close>

definition fname_and_hash ::
  "digest_file \<Rightarrow> PkgFile \<Rightarrow> string \<Rightarrow> (error + string option) \<times> PkgFile" where
  "fname_and_hash digest self hash_algo =
     (case fname_and_hash_slot self of
        None \<Rightarrow>
          if hash_algo \<noteq> [] then
            (case digest (fn self) hash_algo of
               Inl e \<Rightarrow> (Inl e, self)
             | Inr d \<Rightarrow>
                 let v = Some (format_field (relfn_unix self) @ ''#'' @ hash_algo @ ''='' @ d)
                 in (Inr v, set_fname_and_hash v self))
          else (Inr (relfn_unix self), set_fname_and_hash (relfn_unix self) self)
      | Some v \<Rightarrow> (Inr v, self))"

section \<open>Queries\<close>

text \<open>
  The generator \<^verbatim>\<open>find_packages(pkgs, prefix)\<close>, as the list of the records it yields;
  \<open>find_packages_loop\<close> is its loop, run with the normalized prefix.
\<close>

fun find_packages_loop :: "string \<Rightarrow> PkgFile list \<Rightarrow> PkgFile list" where
  "find_packages_loop prefix [] = []"
| "find_packages_loop prefix (x # xs) =
     (if prefix \<noteq> [] \<and> pkgname_norm x \<noteq> prefix then find_packages_loop prefix xs
      else x # find_packages_loop prefix xs)"

definition find_packages :: "PkgFile list \<Rightarrow> string \<Rightarrow> PkgFile list" where
  "find_packages pkgs prefix = find_packages_loop (normalize_pkgname prefix) pkgs"

section \<open>Scanning a directory\<close>

text \<open>\<^verbatim>\<open>sub in s\<close> for strings.\<close>

fun contains :: "string \<Rightarrow> string \<Rightarrow> bool" where
  "contains [] sub = (sub = [])"
| "contains (c # cs) sub = (startswith (c # cs) sub \<or> contains cs sub)"

text \<open>\<^verbatim>\<open>is_allowed_path(path_part)\<close>\<close>

definition is_allowed_path :: "string \<Rightarrow> bool" where
  "is_allowed_path path_part =
     (let p = replace_backslash path_part
      in \<not> (startswith p ''.'' \<or> contains p ''/.''))"

text \<open>
  The segments of a path.  \<open>split_at\<close> cuts a string at every character that is a
  separator.  \<open>path_segments\<close> are the segments of a path of \<^verbatim>\<open>posixpath\<close>, where the
  slash alone separates (\<^verbatim>\<open>p.split("/")\<close>) and a backslash is a character of a name;
  \<open>check_segments\<close> are the segments when the backslash separates as well.
\<close>

fun split_at :: "(char \<Rightarrow> bool) \<Rightarrow> string \<Rightarrow> string list" where
  "split_at sep [] = [[]]"
| "split_at sep (c # cs) =
     (if sep c then [] # split_at sep cs
      else (case split_at sep cs of
              [] \<Rightarrow> [[c]]
            | x # xs \<Rightarrow> (c # x) # xs))"

definition path_segments :: "string \<Rightarrow> string list" where
  "path_segments p = split_at (\<lambda>c. c = CHR ''/'') p"

definition check_segments :: "string \<Rightarrow> string list" where
  "check_segments p = split_at (\<lambda>c. c = CHR ''/'' \<or> c = backslash) p"

text \<open>No segment starts with a dot.\<close>

definition no_dot_segment :: "string list \<Rightarrow> bool" where
  "no_dot_segment segs \<longleftrightarrow> list_all (\<lambda>seg. \<not> startswith seg ''.'') segs"

text \<open>
  \<^verbatim>\<open>os.path.join(a, b)\<close> of \<^verbatim>\<open>posixpath\<close>; with three arguments it is applied twice,
  from the left.
\<close>

definition path_join :: "string \<Rightarrow> string \<Rightarrow> string" where
  "path_join a b =
     (if startswith b ''/'' then b
      else if a = [] \<or> endswith a ''/'' then a @ b
      else a @ ''/'' @ b)"

text \<open>
  The directory tree that \<^verbatim>\<open>os.walk\<close> reads.  An entry of a directory is a regular
  file (\<^verbatim>\<open>os.path.isfile\<close> holds), another entry that is not a directory (a broken link,
  a socket: \<^verbatim>\<open>os.walk\<close> lists it among the file names and \<^verbatim>\<open>os.path.isfile\<close> fails),
  or a directory with its entries.  The entries are in the order in which the directory
  is read.  A name of an entry is not empty and holds no slash.
\<close>

datatype fsnode =
    RegularFile string
  | OtherFile string
  | Directory string "fsnode list"

definition valid_name :: "string \<Rightarrow> bool" where
  "valid_name x \<longleftrightarrow> x \<noteq> [] \<and> CHR ''/'' \<notin> set x"

fun wf_node :: "fsnode \<Rightarrow> bool" where
  "wf_node (RegularFile x) = valid_name x"
| "wf_node (OtherFile x) = valid_name x"
| "wf_node (Directory x children) = (valid_name x \<and> list_all wf_node children)"

text \<open>
  The body of the loop \<^verbatim>\<open>for x in filenames\<close> of \<^verbatim>\<open>_listdir\<close>, for the file name \<open>x\<close>
  in the directory \<open>dirpath\<close>: the records it yields, none or one.  When the name
  guessed is a non-empty string, the version guessed is a string too.
\<close>

definition listdir_file :: "string \<Rightarrow> string \<Rightarrow> string \<Rightarrow> bool \<Rightarrow> PkgFile list" where
  "listdir_file root' dirpath x isfile =
     (let fn' = path_join (path_join root' dirpath) x in
      if \<not> is_allowed_path x \<or> \<not> isfile then []
      else
        let res = guess_pkgname_and_version x in
        if \<not> truthy res then []
        else
          (case res of
             PyNone \<Rightarrow> []
           | Tuple2 pkgname' version' \<Rightarrow>
               if truthy_name pkgname' then
                 (case (pkgname', version') of
                    (Some n, Some v) \<Rightarrow>
                      [PkgFile_init n v (Some fn') (Some root')
                         (Some (drop (length root' + 1) fn')) None]
                  | _ \<Rightarrow> [])
               else []))"

text \<open>The file names of a directory, as \<^verbatim>\<open>os.walk\<close> lists them, run through the body.\<close>

fun listdir_filenames :: "string \<Rightarrow> string \<Rightarrow> fsnode list \<Rightarrow> PkgFile list" where
  "listdir_filenames root' dirpath [] = []"
| "listdir_filenames root' dirpath (RegularFile x # es) =
     listdir_file root' dirpath x True @ listdir_filenames root' dirpath es"
| "listdir_filenames root' dirpath (OtherFile x # es) =
     listdir_file root' dirpath x False @ listdir_filenames root' dirpath es"
| "listdir_filenames root' dirpath (Directory x children # es) =
     listdir_filenames root' dirpath es"

text \<open>
  The loop \<^verbatim>\<open>for dirpath, dirnames, filenames in os.walk(root)\<close> of \<^verbatim>\<open>_listdir\<close>.  The
  walk is top-down: it hands out a directory with its names, the body prunes
  \<^verbatim>\<open>dirnames\<close> in place and yields the records of the files, and the walk then enters
  the directories left in \<^verbatim>\<open>dirnames\<close>, in order.  \<open>listdir_walk\<close> is the walk of one
  directory and \<open>listdir_dirnames\<close> the walk of the directories among its entries.
\<close>

fun listdir_walk :: "string \<Rightarrow> string \<Rightarrow> fsnode list \<Rightarrow> PkgFile list"
  and listdir_dirnames :: "string \<Rightarrow> string \<Rightarrow> fsnode list \<Rightarrow> PkgFile list" where
  "listdir_walk root' dirpath entries =
     listdir_filenames root' dirpath entries @ listdir_dirnames root' dirpath entries"
| "listdir_dirnames root' dirpath [] = []"
| "listdir_dirnames root' dirpath (RegularFile x # es) = listdir_dirnames root' dirpath es"
| "listdir_dirnames root' dirpath (OtherFile x # es) = listdir_dirnames root' dirpath es"
| "listdir_dirnames root' dirpath (Directory x children # es) =
     (if is_allowed_path x then listdir_walk root' (path_join dirpath x) children else [])
     @ listdir_dirnames root' dirpath es"

text \<open>
  \<^verbatim>\<open>_listdir(root)\<close>, as the list of the records it yields: \<open>root'\<close> is the absolute
  path \<^verbatim>\<open>os.path.abspath(root)\<close> and \<open>entries\<close> are the entries of that directory.
\<close>

definition listdir :: "string \<Rightarrow> fsnode list \<Rightarrow> PkgFile list" where
  "listdir root' entries = listdir_walk root' root' entries"

text \<open>
  The relative paths that the walk can reach: not empty, accepted by the check, with no
  slash at either end.
\<close>

definition walked :: "string \<Rightarrow> bool" where
  "walked rel \<longleftrightarrow>
     rel \<noteq> [] \<and> is_allowed_path rel \<and> \<not> startswith rel ''/'' \<and> \<not> endswith rel ''/''"

section \<open>Properties of the version key\<close>

lemma pop_zeros_Nil [simp]: "pop_zeros [] = []"
  by (simp add: pop_zeros.simps)

lemma pop_zeros_snoc:
  "pop_zeros (parts @ [p]) = (if p = ''00000000'' then pop_zeros parts else parts @ [p])"
  by (subst pop_zeros.simps) simp

text \<open>
  C1.  On the examples of the specification the keys are ordered as releases are:
  the key of 1.0rc1 is below the key of 1.0, which is below the key of 1.0.post1,
  and the key of 1.0 is below the key of 1.0.1, which is below the key of 1.1.
\<close>

theorem version_key_examples_ordered:
  "parse_version ''1.0rc1'' < parse_version ''1.0''
   \<and> parse_version ''1.0'' < parse_version ''1.0.post1''
   \<and> parse_version ''1.0'' < parse_version ''1.0.1''
   \<and> parse_version ''1.0.1'' < parse_version ''1.1''"
  by code_simp

lemma digit_not_alpha: "is_digit x \<Longrightarrow> \<not> is_alpha x"
  by (auto simp: is_alpha_def is_digit_def)

lemma dot_dash_not_digit [simp]: "\<not> is_digit CHR ''.''" "\<not> is_digit CHR ''-''"
  by (simp_all add: is_digit_def)

lemma dot_dash_not_alpha [simp]: "\<not> is_alpha CHR ''.''" "\<not> is_alpha CHR ''-''"
  by (simp_all add: is_alpha_def)

lemma list_all_takeWhile [simp]: "list_all P (takeWhile P xs)"
  by (induction xs) auto

lemma set_pop_zeros: "set (pop_zeros parts) \<subseteq> set parts"
proof (induction parts rule: rev_induct)
  case Nil
  then show ?case by simp
next
  case (snoc p parts)
  then show ?case by (auto simp: pop_zeros_snoc)
qed

lemma set_parse_version_loop:
  "set (parse_version_loop parts ps) \<subseteq> set parts \<union> set ps"
proof (induction ps arbitrary: parts)
  case Nil
  then show ?case by simp
next
  case (Cons p ps)
  let ?parts = "(if startswith p ''*'' then pop_zeros parts else parts) @ [p]"
  have "set (parse_version_loop parts (p # ps)) \<subseteq> set ?parts \<union> set ps"
    using Cons.IH [of ?parts] by simp
  also have "\<dots> \<subseteq> set parts \<union> set (p # ps)"
    using set_pop_zeros [of parts] by auto
  finally show ?case .
qed

lemma set_parse_version: "set (parse_version s) \<subseteq> set (parse_version_parts (lower s))"
  using set_parse_version_loop [of "[]"] by (simp add: parse_version_def)

text \<open>A piece of the split that begins with a digit is a run of digits.\<close>

lemma component_re_split_from_digits:
  "p \<in> set (component_re_split_from acc s) \<Longrightarrow> list_all (\<lambda>c. \<not> is_digit c) acc
   \<Longrightarrow> p \<noteq> [] \<Longrightarrow> is_digit (hd p) \<Longrightarrow> list_all is_digit p"
proof (induction acc s rule: component_re_split_from.induct)
  case (1 acc)
  then show ?case by (cases acc) auto
next
  case (2 acc c cs)
  have acc: "p \<noteq> acc"
    using "2.prems" by (cases acc) auto
  show ?case
  proof (cases "is_digit c")
    case True
    then have "p = c # takeWhile is_digit cs
               \<or> p \<in> set (component_re_split_from [] (dropWhile is_digit cs))"
      using "2.prems"(1) acc by simp
    then show ?thesis
    proof
      assume "p = c # takeWhile is_digit cs"
      then show ?thesis using True by simp
    next
      assume "p \<in> set (component_re_split_from [] (dropWhile is_digit cs))"
      then show ?thesis using "2.IH"(1) [OF True] "2.prems" by simp
    qed
  next
    case nd: False
    show ?thesis
    proof (cases "is_alpha c")
      case True
      then have "p = c # takeWhile is_alpha cs
                 \<or> p \<in> set (component_re_split_from [] (dropWhile is_alpha cs))"
        using "2.prems"(1) acc nd by simp
      then show ?thesis
      proof
        assume "p = c # takeWhile is_alpha cs"
        then show ?thesis using nd "2.prems" by simp
      next
        assume "p \<in> set (component_re_split_from [] (dropWhile is_alpha cs))"
        then show ?thesis using "2.IH"(2) [OF nd True] "2.prems" by simp
      qed
    next
      case na: False
      show ?thesis
      proof (cases "c = CHR ''.'' \<or> c = CHR ''-''")
        case True
        then have "p = [c] \<or> p \<in> set (component_re_split_from [] cs)"
          using "2.prems"(1) acc nd na by simp
        then show ?thesis
        proof
          assume "p = [c]"
          then show ?thesis using nd "2.prems" by simp
        next
          assume "p \<in> set (component_re_split_from [] cs)"
          then show ?thesis using "2.IH"(3) [OF nd na True] "2.prems" by simp
        qed
      next
        case False
        then have "p \<in> set (component_re_split_from (acc @ [c]) cs)"
          using "2.prems"(1) nd na by simp
        then show ?thesis using "2.IH"(4) [OF nd na False] "2.prems" nd by simp
      qed
    qed
  qed
qed

lemma star_less_digit: "is_digit d \<Longrightarrow> CHR ''*'' < d"
  by (auto simp: is_digit_def)

lemma replace_digit:
  assumes "replace p \<noteq> []" "first_in_digits (replace p)"
  shows "replace p = p \<and> p \<noteq> [] \<and> is_digit (hd p)"
proof -
  have "replace p = p"
  proof (rule ccontr)
    assume "replace p \<noteq> p"
    then have "replace p \<in> {''c'', ''final-'', ''@''}"
      by (auto simp: replace_def split: if_splits)
    then show False
      using assms(2) by (auto simp: first_in_digits_def is_digit_def)
  qed
  with assms show ?thesis
    by (cases p) (auto simp: first_in_digits_def)
qed

lemma zfill_digits:
  assumes "list_all is_digit p" "p \<noteq> []"
  shows "list_all is_digit (zfill 8 p) \<and> 8 \<le> length (zfill 8 p)"
proof -
  obtain c cs where p: "p = c # cs" using assms(2) by (cases p) auto
  have c: "is_digit c" using assms(1) p by simp
  then have "c \<noteq> CHR ''+''" "c \<noteq> CHR ''-''"
    by (auto simp: is_digit_def)
  then have "zfill 8 p = replicate (8 - length p) CHR ''0'' @ p"
    by (simp add: zfill_def p)
  moreover have "is_digit CHR ''0''" by (simp add: is_digit_def)
  ultimately show ?thesis using assms(1) by (auto simp: list_all_iff)
qed

lemma parse_version_parts_from_tokens:
  assumes "t \<in> set (parse_version_parts_from ps)"
    and "\<And>p. p \<in> set ps \<Longrightarrow> p \<noteq> [] \<Longrightarrow> is_digit (hd p) \<Longrightarrow> list_all is_digit p"
  shows "(\<exists>part. t = CHR ''*'' # part \<and> \<not> first_in_digits part)
         \<or> (list_all is_digit t \<and> 8 \<le> length t)"
  using assms
proof (induction ps)
  case Nil
  then have "t = CHR ''*'' # ''final''" by simp
  moreover have "\<not> first_in_digits ''final''" by (simp add: first_in_digits_def is_digit_def)
  ultimately show ?case by blast
next
  case (Cons p ps)
  show ?case
  proof (cases "t \<in> set (parse_version_parts_from ps)")
    case True
    then show ?thesis using Cons.IH Cons.prems(2) by simp
  next
    case False
    then have ne: "replace p \<noteq> []" and
      t: "t = (if first_in_digits (replace p) then zfill 8 (replace p) else CHR ''*'' # replace p)"
      using Cons.prems(1) by (auto simp: Let_def split: if_splits)
    show ?thesis
    proof (cases "first_in_digits (replace p)")
      case True
      then have "replace p = p \<and> p \<noteq> [] \<and> is_digit (hd p)"
        using replace_digit ne by blast
      then have "list_all is_digit (replace p)"
        using Cons.prems(2) [of p] by simp
      then show ?thesis using zfill_digits ne t True by simp
    next
      case False
      then show ?thesis using t by auto
    qed
  qed
qed

lemma parse_version_tokens:
  assumes "t \<in> set (parse_version s)"
  shows "(\<exists>part. t = CHR ''*'' # part \<and> \<not> first_in_digits part)
         \<or> (list_all is_digit t \<and> 8 \<le> length t)"
proof -
  have "t \<in> set (parse_version_parts_from (component_re_split_from [] (lower s)))"
    using assms set_parse_version by (auto simp: parse_version_parts_def component_re_split_def)
  moreover have "list_all is_digit p"
    if "p \<in> set (component_re_split_from [] (lower s))" "p \<noteq> []" "is_digit (hd p)" for p
    using component_re_split_from_digits [OF that(1) _ that(2,3)] by simp
  ultimately show ?thesis
    by (rule parse_version_parts_from_tokens)
qed

lemma sentinel_less_numeric:
  assumes "startswith t ''*''" "list_all is_digit u" "8 \<le> length u"
  shows "t < u"
proof -
  obtain r where t: "t = CHR ''*'' # r"
    using assms(1) by (cases t) (auto simp: startswith_def)
  obtain d ds where u: "u = d # ds" using assms(3) by (cases u) auto
  then have "is_digit d" using assms(2) by simp
  then show ?thesis using t u star_less_digit by simp
qed

lemma numeric_not_sentinel:
  assumes "list_all is_digit u" shows "\<not> startswith u ''*''"
  using assms by (cases u) (auto simp: startswith_def is_digit_def)

text \<open>
  C2 (as amended).  Every token of a key is either the sentinel \<open>*\<close> followed by a part
  that does not begin with a digit, or a run of at least eight digits; and a token that
  carries the sentinel sorts before, not after, every numeric token of any key, since
  \<open>*\<close> precedes the digits in character order.
\<close>

theorem sentinel_tokens_sort_before_numeric:
  assumes "t \<in> set (parse_version v)" and "u \<in> set (parse_version w)"
  shows "((\<exists>part. t = CHR ''*'' # part \<and> \<not> first_in_digits part)
          \<or> (list_all is_digit t \<and> 8 \<le> length t))
         \<and> (startswith t ''*'' \<and> \<not> startswith u ''*'' \<longrightarrow> t < u)"
proof
  show "(\<exists>part. t = CHR ''*'' # part \<and> \<not> first_in_digits part)
          \<or> (list_all is_digit t \<and> 8 \<le> length t)"
    using assms(1) by (rule parse_version_tokens)
next
  show "startswith t ''*'' \<and> \<not> startswith u ''*'' \<longrightarrow> t < u"
  proof
    assume h: "startswith t ''*'' \<and> \<not> startswith u ''*''"
    have "(\<exists>part. u = CHR ''*'' # part \<and> \<not> first_in_digits part)
          \<or> (list_all is_digit u \<and> 8 \<le> length u)"
      using assms(2) by (rule parse_version_tokens)
    then have "list_all is_digit u \<and> 8 \<le> length u"
      using h by (auto simp: startswith_def)
    then show "t < u" using h sentinel_less_numeric by blast
  qed
qed

theorem sentinel_tokens_sort_before_numeric_witness:
  "''*final'' \<in> set (parse_version ''1.0'') \<and> ''00000001'' \<in> set (parse_version ''1.1'')
   \<and> startswith ''*final'' ''*'' \<and> \<not> startswith ''00000001'' ''*''
   \<and> ''*final'' < ''00000001''"
proof -
  have t: "''*final'' \<in> set (parse_version ''1.0'')" by code_simp
  have u: "''00000001'' \<in> set (parse_version ''1.1'')" by code_simp
  have s: "startswith ''*final'' ''*'' \<and> \<not> startswith ''00000001'' ''*''"
    by (simp add: startswith_def)
  show ?thesis
    using sentinel_tokens_sort_before_numeric [OF t u] t u s by blast
qed

text \<open>
  The keys of 1.0 and 1.1 hold a sentinel token and a numeric token at the same position,
  and there the numeric token is not below the sentinel token.
\<close>

theorem sentinel_after_numeric_counterexample:
  "parse_version ''1.0'' ! 1 = ''*final'' \<and> parse_version ''1.1'' ! 1 = ''00000001''
   \<and> startswith ''*final'' ''*'' \<and> \<not> startswith ''00000001'' ''*''
   \<and> \<not> ''00000001'' < ''*final''"
  by code_simp

lemma takeWhile_append_stop: "\<not> P y \<Longrightarrow> takeWhile P (xs @ y # ys) = takeWhile P xs"
  by (induction xs) auto

lemma dropWhile_append_stop: "\<not> P y \<Longrightarrow> dropWhile P (xs @ y # ys) = dropWhile P xs @ y # ys"
  by (induction xs) auto

lemma component_re_split_from_dot_zero:
  "\<exists>xs x. component_re_split_from acc s = xs @ [x]
     \<and> component_re_split_from acc (s @ ''.0'') = xs @ [x, ''.'', '''', ''0'', '''']"
proof (induction acc s rule: component_re_split_from.induct)
  case (1 acc)
  have "is_digit CHR ''0''" by (simp add: is_digit_def)
  then have "component_re_split_from acc ''.0'' = [acc, ''.'', '''', ''0'', '''']"
    by simp
  then show ?case by simp
next
  case (2 acc c cs)
  show ?case
  proof (cases "is_digit c")
    case True
    from "2.IH"(1) [OF True] obtain xs x where
      "component_re_split_from [] (dropWhile is_digit cs) = xs @ [x]"
      "component_re_split_from [] (dropWhile is_digit cs @ ''.0'') = xs @ [x, ''.'', '''', ''0'', '''']"
      by blast
    then have "component_re_split_from acc (c # cs) = (acc # (c # takeWhile is_digit cs) # xs) @ [x]
      \<and> component_re_split_from acc ((c # cs) @ ''.0'')
          = (acc # (c # takeWhile is_digit cs) # xs) @ [x, ''.'', '''', ''0'', '''']"
      using True by (simp add: takeWhile_append_stop dropWhile_append_stop)
    then show ?thesis by blast
  next
    case nd: False
    show ?thesis
    proof (cases "is_alpha c")
      case True
      from "2.IH"(2) [OF nd True] obtain xs x where
        "component_re_split_from [] (dropWhile is_alpha cs) = xs @ [x]"
        "component_re_split_from [] (dropWhile is_alpha cs @ ''.0'') = xs @ [x, ''.'', '''', ''0'', '''']"
        by blast
      then have "component_re_split_from acc (c # cs) = (acc # (c # takeWhile is_alpha cs) # xs) @ [x]
        \<and> component_re_split_from acc ((c # cs) @ ''.0'')
            = (acc # (c # takeWhile is_alpha cs) # xs) @ [x, ''.'', '''', ''0'', '''']"
        using True nd by (simp add: takeWhile_append_stop dropWhile_append_stop)
      then show ?thesis by blast
    next
      case na: False
      show ?thesis
      proof (cases "c = CHR ''.'' \<or> c = CHR ''-''")
        case True
        from "2.IH"(3) [OF nd na True] obtain xs x where
          "component_re_split_from [] cs = xs @ [x]"
          "component_re_split_from [] (cs @ ''.0'') = xs @ [x, ''.'', '''', ''0'', '''']"
          by blast
        then have "component_re_split_from acc (c # cs) = (acc # [c] # xs) @ [x]
          \<and> component_re_split_from acc ((c # cs) @ ''.0'')
              = (acc # [c] # xs) @ [x, ''.'', '''', ''0'', '''']"
          using True nd na by simp
        then show ?thesis by blast
      next
        case False
        from "2.IH"(4) [OF nd na False] obtain xs x where
          "component_re_split_from (acc @ [c]) cs = xs @ [x]"
          "component_re_split_from (acc @ [c]) (cs @ ''.0'') = xs @ [x, ''.'', '''', ''0'', '''']"
          by blast
        then have "component_re_split_from acc (c # cs) = xs @ [x]
          \<and> component_re_split_from acc ((c # cs) @ ''.0'') = xs @ [x, ''.'', '''', ''0'', '''']"
          using False nd na by simp
        then show ?thesis by blast
      qed
    qed
  qed
qed

lemma parse_version_parts_from_final:
  "\<exists>ts. parse_version_parts_from ps = ts @ [''*final'']
     \<and> (\<forall>qs. parse_version_parts_from (ps @ qs) = ts @ parse_version_parts_from qs)"
proof (induction ps)
  case Nil
  then show ?case by simp
next
  case (Cons p ps)
  then obtain ts where ts: "parse_version_parts_from ps = ts @ [''*final'']"
    "\<And>qs. parse_version_parts_from (ps @ qs) = ts @ parse_version_parts_from qs"
    by blast
  show ?case
  proof (cases "replace p \<in> set ['''', ''.'']")
    case True
    then show ?thesis using ts by (simp add: Let_def)
  next
    case False
    let ?t = "if first_in_digits (replace p) then zfill 8 (replace p) else CHR ''*'' # replace p"
    have "parse_version_parts_from (p # ps) = (?t # ts) @ [''*final'']
      \<and> (\<forall>qs. parse_version_parts_from ((p # ps) @ qs) = (?t # ts) @ parse_version_parts_from qs)"
      using False ts by (simp add: Let_def)
    then show ?thesis by blast
  qed
qed

lemma parse_version_loop_append:
  "parse_version_loop parts (ps @ qs) = parse_version_loop (parse_version_loop parts ps) qs"
  by (induction ps arbitrary: parts) simp_all

lemma lower_append: "lower (s @ t) = lower s @ lower t"
  by (simp add: lower_def)

lemma parse_version_dot_zero: "parse_version (s @ ''.0'') = parse_version s"
proof -
  obtain xs x where split:
    "component_re_split_from [] (lower s) = xs @ [x]"
    "component_re_split_from [] (lower s @ ''.0'') = xs @ [x, ''.'', '''', ''0'', '''']"
    using component_re_split_from_dot_zero by blast
  obtain ts where ts: "parse_version_parts_from (xs @ [x]) = ts @ [''*final'']"
    "\<And>qs. parse_version_parts_from ((xs @ [x]) @ qs) = ts @ parse_version_parts_from qs"
    using parse_version_parts_from_final by blast
  have tail: "parse_version_parts_from [''.'', '''', ''0'', ''''] = [''00000000'', ''*final'']"
    by code_simp
  have low: "lower (s @ ''.0'') = lower s @ ''.0''"
    by (simp add: lower_append) code_simp
  have star: "startswith ''*final'' ''*''" "\<not> startswith ''00000000'' ''*''"
    by (simp_all add: startswith_def)
  have "parse_version_parts (lower (s @ ''.0'')) = ts @ [''00000000'', ''*final'']"
    using ts(2) [of "[''.'', '''', ''0'', '''']"] split(2) tail low
    by (simp add: parse_version_parts_def component_re_split_def)
  moreover have "parse_version_parts (lower s) = ts @ [''*final'']"
    using ts(1) split(1) by (simp add: parse_version_parts_def component_re_split_def)
  ultimately show ?thesis
    using star by (simp add: parse_version_def parse_version_loop_append pop_zeros_snoc)
qed

lemma no_zero_before_sentinel_snoc:
  "no_zero_before_sentinel (parts @ [p]) \<longleftrightarrow>
     no_zero_before_sentinel parts
     \<and> \<not> (parts \<noteq> [] \<and> last parts = ''00000000'' \<and> startswith p ''*'')"
  by (induction parts rule: no_zero_before_sentinel.induct) auto

lemma pop_zeros_last: "pop_zeros parts = [] \<or> last (pop_zeros parts) \<noteq> ''00000000''"
  by (induction parts rule: rev_induct) (simp_all add: pop_zeros_snoc)

lemma no_zero_before_sentinel_pop:
  "no_zero_before_sentinel parts \<Longrightarrow> no_zero_before_sentinel (pop_zeros parts)"
  by (induction parts rule: rev_induct)
     (simp_all add: pop_zeros_snoc no_zero_before_sentinel_snoc)

lemma no_zero_before_sentinel_loop:
  "no_zero_before_sentinel parts \<Longrightarrow> no_zero_before_sentinel (parse_version_loop parts ps)"
proof (induction ps arbitrary: parts)
  case Nil
  then show ?case by simp
next
  case (Cons p ps)
  have "no_zero_before_sentinel ((if startswith p ''*'' then pop_zeros parts else parts) @ [p])"
    using Cons.prems pop_zeros_last [of parts]
    by (auto simp: no_zero_before_sentinel_snoc no_zero_before_sentinel_pop)
  then show ?case using Cons.IH by simp
qed

lemma no_zero_before_sentinel_key: "no_zero_before_sentinel (parse_version s)"
  by (simp add: parse_version_def no_zero_before_sentinel_loop)

text \<open>
  C3.  Appending a segment \<open>.0\<close> to any version string leaves its key unchanged, because
  the zero tokens that end a numeric series are popped before a sentinel token is
  appended: no key holds a zero token immediately before a sentinel token.  So 1.0 and
  1.0.0 have the same key, while the key of 1.0.dev1 differs from the key of 1.0 and is
  below it.
\<close>

theorem trailing_zero_segments_dropped:
  "parse_version (s @ ''.0'') = parse_version s
   \<and> no_zero_before_sentinel (parse_version s)
   \<and> parse_version ''1.0'' = parse_version ''1.0.0''
   \<and> parse_version ''1.0.dev1'' \<noteq> parse_version ''1.0''
   \<and> parse_version ''1.0.dev1'' < parse_version ''1.0''"
proof -
  have "parse_version ''1.0'' = parse_version ''1.0.0''" by code_simp
  moreover have "parse_version ''1.0.dev1'' \<noteq> parse_version ''1.0''" by code_simp
  moreover have "parse_version ''1.0.dev1'' < parse_version ''1.0''" by code_simp
  ultimately show ?thesis
    using parse_version_dot_zero no_zero_before_sentinel_key by blast
qed

theorem trailing_zero_segments_dropped_witness:
  "parse_version (''2.5'' @ ''.0'') = parse_version ''2.5''
   \<and> parse_version ''2.5'' = [''00000002'', ''00000005'', ''*final'']
   \<and> no_zero_before_sentinel (parse_version ''2.0.0rc1'')
   \<and> parse_version ''2.0.0rc1'' = [''00000002'', ''*c'', ''00000001'', ''*final'']"
proof -
  have "parse_version ''2.5'' = [''00000002'', ''00000005'', ''*final'']" by code_simp
  moreover have "parse_version ''2.0.0rc1'' = [''00000002'', ''*c'', ''00000001'', ''*final'']"
    by code_simp
  ultimately show ?thesis
    using trailing_zero_segments_dropped [of "''2.5''"]
      trailing_zero_segments_dropped [of "''2.0.0rc1''"] by simp
qed

section \<open>Properties of the normalizer\<close>

text \<open>Capitals and \<open>lower_char\<close> by code point.\<close>

lemma is_upper_code:
  "is_upper c \<longleftrightarrow>
     (65 \<le> (of_char c :: nat) \<and> (of_char c :: nat) \<le> 90)
     \<or> (192 \<le> (of_char c :: nat) \<and> (of_char c :: nat) \<le> 222 \<and> (of_char c :: nat) \<noteq> 215)"
proof -
  have "c \<noteq> CHR 0xD7 \<longleftrightarrow> (of_char c :: nat) \<noteq> of_char (CHR 0xD7)"
    by (simp only: of_char_eq_iff)
  then show ?thesis
    by (simp add: is_upper_def less_eq_char_def)
qed

lemma lower_char_code:
  "(of_char (lower_char c) :: nat) = (if is_upper c then of_char c + 32 else of_char c)"
proof (cases "is_upper c")
  case True
  then have "(of_char c :: nat) + 32 < 256" by (auto simp: is_upper_code)
  then show ?thesis using True by (simp add: lower_char_def of_char_of)
next
  case False
  then show ?thesis by (simp add: lower_char_def)
qed

lemma lower_char_not_upper: "\<not> is_upper (lower_char c)"
  by (auto simp: is_upper_code [of "lower_char c"] lower_char_code is_upper_code [of c])

lemma lower_char_idem [simp]: "lower_char (lower_char c) = lower_char c"
  using lower_char_not_upper [of c] by (simp add: lower_char_def [of "lower_char c"])

lemma char_eq_code: "c = d \<longleftrightarrow> (of_char c :: nat) = of_char d"
  by (simp only: of_char_eq_iff)

lemma is_separator_code:
  "is_separator c \<longleftrightarrow> (of_char c :: nat) = 45 \<or> (of_char c :: nat) = 95 \<or> (of_char c :: nat) = 46"
  by (auto simp: is_separator_def char_eq_code [of c])

lemma lower_char_separator [simp]: "is_separator (lower_char c) = is_separator c"
  by (auto simp: is_separator_code lower_char_code is_upper_code)

lemma lower_char_eq_sep:
  "lower_char c = CHR ''_'' \<longleftrightarrow> c = CHR ''_''" "lower_char c = CHR ''.'' \<longleftrightarrow> c = CHR ''.''"
  "lower_char c = CHR ''-'' \<longleftrightarrow> c = CHR ''-''"
  by (auto simp: char_eq_code [of _ "CHR ''_''"] char_eq_code [of _ "CHR ''.''"]
      char_eq_code [of _ "CHR ''-''"] lower_char_code is_upper_code)

lemma lower_char_dash [simp]: "lower_char CHR ''-'' = CHR ''-''"
  by (simp add: lower_char_eq_sep)

lemma lower_idem [simp]: "lower (lower s) = lower s"
  by (simp add: lower_def)

lemma dropWhile_separator_map_lower:
  "dropWhile is_separator (map lower_char cs) = map lower_char (dropWhile is_separator cs)"
  by (induction cs) auto

lemma sub_separators_lower: "sub_separators (lower s) = lower (sub_separators s)"
proof (induction s rule: sub_separators.induct)
  case 1
  then show ?case by (simp add: lower_def)
next
  case (2 c cs)
  then show ?case
    by (auto simp: lower_def dropWhile_separator_map_lower)
qed

lemma dropWhile_sub_separators:
  "xs = [] \<or> \<not> is_separator (hd xs) \<Longrightarrow> dropWhile is_separator (sub_separators xs) = sub_separators xs"
  by (cases xs) auto

lemma dropWhile_stops: "dropWhile P xs = [] \<or> \<not> P (hd (dropWhile P xs))"
  using hd_dropWhile by blast

lemma dash_separator [simp]: "is_separator CHR ''-''"
  by (simp add: is_separator_def)

lemma sub_separators_idem: "sub_separators (sub_separators s) = sub_separators s"
proof (induction s rule: sub_separators.induct)
  case 1
  then show ?case by simp
next
  case (2 c cs)
  show ?case
  proof (cases "is_separator c")
    case True
    have "dropWhile is_separator (sub_separators (dropWhile is_separator cs))
          = sub_separators (dropWhile is_separator cs)"
      by (rule dropWhile_sub_separators) (rule dropWhile_stops)
    then show ?thesis using True "2.IH"(1) by simp
  next
    case False
    then show ?thesis using "2.IH"(2) by simp
  qed
qed

lemma normalize_pkgname_idem: "normalize_pkgname (normalize_pkgname s) = normalize_pkgname s"
  by (simp add: normalize_pkgname_def sub_separators_lower sub_separators_idem)

lemma is_lowercase_lower: "is_lowercase (lower s)"
  unfolding is_lowercase_def lower_def list_all_iff using lower_char_not_upper by auto

lemma single_dashes_lower: "single_dashes (map lower_char s) = single_dashes s"
  by (induction s rule: single_dashes.induct) (simp_all add: lower_char_eq_sep)

lemma sub_separators_hd:
  "sub_separators xs = d # ds \<Longrightarrow> xs = [] \<or> \<not> is_separator (hd xs) \<Longrightarrow> \<not> is_separator d"
  by (cases xs) (auto split: if_splits)

lemma single_dashes_sub: "single_dashes (sub_separators s)"
proof (induction s rule: sub_separators.induct)
  case 1
  then show ?case by simp
next
  case (2 c cs)
  show ?case
  proof (cases "is_separator c")
    case True
    let ?r = "sub_separators (dropWhile is_separator cs)"
    show ?thesis
    proof (cases ?r)
      case Nil
      then show ?thesis using True by simp
    next
      case (Cons d ds)
      then have "\<not> is_separator d"
        using sub_separators_hd dropWhile_stops by blast
      then show ?thesis using True Cons "2.IH"(1) by simp
    qed
  next
    case False
    then have c: "c \<noteq> CHR ''_''" "c \<noteq> CHR ''.''" "c \<noteq> CHR ''-''"
      by (auto simp: is_separator_def)
    show ?thesis
    proof (cases "sub_separators cs")
      case Nil
      then show ?thesis using False c by simp
    next
      case (Cons d ds)
      then show ?thesis using False c "2.IH"(2) by simp
    qed
  qed
qed

lemma dropWhile_separator_run:
  assumes "list_all is_separator b" "c = [] \<or> \<not> is_separator (hd c)"
  shows "dropWhile is_separator (b @ c) = c"
  using assms by (induction b) (auto simp: dropWhile_eq_self_iff)

lemma sub_separators_run:
  assumes "list_all is_separator b" "b \<noteq> []" "c = [] \<or> \<not> is_separator (hd c)"
  shows "sub_separators (b @ c) = CHR ''-'' # sub_separators c"
proof -
  obtain b0 b' where b: "b = b0 # b'" using assms(2) by (cases b) auto
  then have "dropWhile is_separator (b' @ c) = c"
    using assms(1,3) by (intro dropWhile_separator_run) auto
  then show ?thesis using assms(1) by (simp add: b)
qed

lemma dropWhile_append_keep:
  "\<exists>y\<in>set xs. \<not> P y \<Longrightarrow> dropWhile P (xs @ r) = dropWhile P xs @ r"
  by (induction xs) auto

lemma dropWhile_last:
  "\<exists>y\<in>set xs. \<not> P y \<Longrightarrow> last (dropWhile P xs) = last xs"
  by (induction xs) auto

lemma sub_separators_append:
  assumes "a = [] \<or> \<not> is_separator (last a)"
  shows "sub_separators (a @ r) = sub_separators a @ sub_separators r"
  using assms
proof (induction a rule: sub_separators.induct)
  case 1
  then show ?case by simp
next
  case (2 x xs)
  show ?case
  proof (cases "is_separator x")
    case True
    then have xs: "xs \<noteq> []" "\<not> is_separator (last xs)"
      using "2.prems" by (auto split: if_splits)
    then have ex: "\<exists>y\<in>set xs. \<not> is_separator y"
      using last_in_set by blast
    have d: "dropWhile is_separator (xs @ r) = dropWhile is_separator xs @ r"
      using ex by (rule dropWhile_append_keep)
    have "last (dropWhile is_separator xs) = last xs"
      using ex by (rule dropWhile_last)
    then have "sub_separators (dropWhile is_separator xs @ r)
      = sub_separators (dropWhile is_separator xs) @ sub_separators r"
      using "2.IH"(1) [OF True] xs(2) by simp
    then show ?thesis using True d by simp
  next
    case False
    have "sub_separators (xs @ r) = sub_separators xs @ sub_separators r"
    proof (cases "xs = []")
      case True
      then show ?thesis by simp
    next
      case nonempty: False
      then have "\<not> is_separator (last xs)" using "2.prems" by simp
      then show ?thesis using "2.IH"(2) [OF False] by simp
    qed
    then show ?thesis using False by simp
  qed
qed

lemma sub_separators_none:
  "list_all (\<lambda>c. \<not> is_separator c) s \<Longrightarrow> sub_separators s = s"
  by (induction s) auto

lemma normalize_pkgname_runs:
  assumes "list_all is_separator b" "b \<noteq> []" "a = [] \<or> \<not> is_separator (last a)"
    "c = [] \<or> \<not> is_separator (hd c)"
  shows "normalize_pkgname (a @ b @ c) = normalize_pkgname a @ ''-'' @ normalize_pkgname c"
proof -
  have "sub_separators (a @ b @ c) = sub_separators a @ CHR ''-'' # sub_separators c"
    using sub_separators_append [OF assms(3)] sub_separators_run [OF assms(1,2,4)] by simp
  then show ?thesis by (simp add: normalize_pkgname_def lower_def)
qed

text \<open>
  C5.  \<open>normalize_pkgname\<close> is a total function on strings and is idempotent.  Its
  result is entirely in lower case: it holds no capital, of ASCII or of Latin-1.  It
  holds no \<open>_\<close> and no \<open>.\<close>, and no dash followed by another separator.  A maximal run
  of separators becomes one dash: a string without separators is only put in lower
  case, and where a non-empty run of separators stands between two texts that it does
  not extend into, the result is the result for the first text, a dash, and the result
  for the second.  Both \<open>Foo_Bar.Baz\<close> and \<open>foo-bar-baz\<close> normalize to
  \<open>foo-bar-baz\<close>.
\<close>

theorem normalize_pkgname_idempotent:
  "normalize_pkgname (normalize_pkgname s) = normalize_pkgname s
   \<and> is_lowercase (normalize_pkgname s)
   \<and> single_dashes (normalize_pkgname s)
   \<and> (list_all (\<lambda>c. \<not> is_separator c) s \<longrightarrow> normalize_pkgname s = lower s)
   \<and> (list_all is_separator b \<and> b \<noteq> [] \<and> (a = [] \<or> \<not> is_separator (last a))
        \<and> (c = [] \<or> \<not> is_separator (hd c))
      \<longrightarrow> normalize_pkgname (a @ b @ c) = normalize_pkgname a @ ''-'' @ normalize_pkgname c)
   \<and> normalize_pkgname ''Foo_Bar.Baz'' = ''foo-bar-baz''
   \<and> normalize_pkgname ''foo-bar-baz'' = ''foo-bar-baz''
   \<and> normalize_pkgname [CHR 0xC9, CHR ''_'', CHR ''.'', CHR ''X''] = [CHR 0xE9, CHR ''-'', CHR ''x'']"
proof -
  have "normalize_pkgname [CHR 0xC9, CHR ''_'', CHR ''.'', CHR ''X''] = [CHR 0xE9, CHR ''-'', CHR ''x'']"
    by code_simp
  moreover have "normalize_pkgname ''Foo_Bar.Baz'' = ''foo-bar-baz''" by code_simp
  moreover have "normalize_pkgname ''foo-bar-baz'' = ''foo-bar-baz''" by code_simp
  moreover have "single_dashes (normalize_pkgname s)"
    using single_dashes_lower single_dashes_sub by (simp add: normalize_pkgname_def lower_def)
  moreover have "list_all (\<lambda>c. \<not> is_separator c) s \<longrightarrow> normalize_pkgname s = lower s"
    by (simp add: normalize_pkgname_def sub_separators_none)
  ultimately show ?thesis
    using normalize_pkgname_idem [of s] is_lowercase_lower [of "sub_separators s"]
      normalize_pkgname_runs [of b a c]
    by (simp add: normalize_pkgname_def)
qed

theorem normalize_pkgname_idempotent_witness:
  "list_all (\<lambda>c. \<not> is_separator c) ''FooBar'' \<and> normalize_pkgname ''FooBar'' = ''foobar''
   \<and> list_all is_separator ''_-.'' \<and> ''_-.'' \<noteq> [] \<and> \<not> is_separator (last ''Foo'')
   \<and> \<not> is_separator (hd ''Bar'')
   \<and> normalize_pkgname (''Foo'' @ ''_-.'' @ ''Bar'') = ''foo-bar''"
proof -
  have h: "list_all (\<lambda>c. \<not> is_separator c) ''FooBar''" "list_all is_separator ''_-.''"
    "\<not> is_separator (last ''Foo'')" "\<not> is_separator (hd ''Bar'')"
    by code_simp+
  have n: "normalize_pkgname ''Foo'' = ''foo''" "normalize_pkgname ''Bar'' = ''bar''"
    "lower ''FooBar'' = ''foobar''"
    by code_simp+
  show ?thesis
    using normalize_pkgname_idempotent [of "''FooBar''" "''_-.''" "''Foo''" "''Bar''"] h n
    by simp
qed

section \<open>Properties of the records and queries\<close>

lemma sub_separators_Nil_iff: "sub_separators s = [] \<longleftrightarrow> s = []"
  by (cases s) auto

lemma normalize_pkgname_Nil_iff: "normalize_pkgname s = [] \<longleftrightarrow> s = []"
  by (simp add: normalize_pkgname_def lower_def sub_separators_Nil_iff)

lemma find_packages_loop_filter:
  "find_packages_loop prefix pkgs =
     (if prefix = [] then pkgs else filter (\<lambda>x. pkgname_norm x = prefix) pkgs)"
  by (induction pkgs) auto

text \<open>
  C8.  \<open>find_packages\<close> with a non-empty name keeps, in their order, exactly the records
  whose normalized name equals the normalized form of that name, which for a name that
  is already normalized is the name itself: the test is equality, not a prefix test.
  With the empty name it returns every record unchanged.
\<close>

theorem find_packages_exact_name:
  "find_packages pkgs name =
     (if name = [] then pkgs
      else filter (\<lambda>x. pkgname_norm x = normalize_pkgname name) pkgs)
   \<and> (normalize_pkgname name = name \<and> name \<noteq> [] \<longrightarrow>
        find_packages pkgs name = filter (\<lambda>x. pkgname_norm x = name) pkgs)
   \<and> find_packages pkgs [] = pkgs"
  by (simp add: find_packages_def find_packages_loop_filter normalize_pkgname_Nil_iff)

theorem find_packages_exact_name_witness:
  "normalize_pkgname ''foo'' = ''foo'' \<and> ''foo'' \<noteq> []
   \<and> find_packages
        [PkgFile_init ''Foo'' ''1.0'' None None None None,
         PkgFile_init ''foobar'' ''2.0'' None None None None,
         PkgFile_init ''foo'' ''1.1'' None None None None] ''foo''
      = [PkgFile_init ''Foo'' ''1.0'' None None None None,
         PkgFile_init ''foo'' ''1.1'' None None None None]"
proof -
  have n: "normalize_pkgname ''foo'' = ''foo''" "normalize_pkgname ''Foo'' = ''foo''"
    "normalize_pkgname ''foobar'' = ''foobar''"
    by code_simp+
  show ?thesis
    using find_packages_exact_name
      [of "[PkgFile_init ''Foo'' ''1.0'' None None None None,
            PkgFile_init ''foobar'' ''2.0'' None None None None,
            PkgFile_init ''foo'' ''1.1'' None None None None]" "''foo''"] n
    by (simp add: PkgFile_init_def)
qed

lemma fname_and_hash_slot_set [simp]:
  "fname_and_hash_slot (set_fname_and_hash v self) = Some v"
  by (simp add: set_fname_and_hash_def)

text \<open>
  C9.  Once a call of \<open>fname_and_hash\<close> has returned a value \<open>v\<close>, every later call on
  the record returns \<open>v\<close> and leaves the record as it is, whatever algorithm it asks
  for and whatever the digest of the file has become.
\<close>

theorem fname_and_hash_memoized:
  assumes "fname_and_hash digest1 self algo1 = (Inr v, self')"
  shows "fname_and_hash digest2 self' algo2 = (Inr v, self')"
proof -
  have "fname_and_hash_slot self' = Some v"
    using assms
    by (auto simp: fname_and_hash_def Let_def split: option.splits if_splits sum.splits)
  then show ?thesis by (simp add: fname_and_hash_def)
qed

theorem fname_and_hash_memoized_witness:
  "fname_and_hash (\<lambda>p a. Inr ''0a'')
     (PkgFile_init ''foo'' ''1.0'' (Some ''/srv/foo-1.0.zip'') (Some ''/srv'') (Some ''foo-1.0.zip'') None)
     ''md5''
   = (Inr (Some ''foo-1.0.zip#md5=0a''),
      set_fname_and_hash (Some ''foo-1.0.zip#md5=0a'')
        (PkgFile_init ''foo'' ''1.0'' (Some ''/srv/foo-1.0.zip'') (Some ''/srv'') (Some ''foo-1.0.zip'') None))
   \<and> fname_and_hash (\<lambda>p a. Inr ''ff'')
        (set_fname_and_hash (Some ''foo-1.0.zip#md5=0a'')
          (PkgFile_init ''foo'' ''1.0'' (Some ''/srv/foo-1.0.zip'') (Some ''/srv'') (Some ''foo-1.0.zip'') None))
        ''sha256''
      = (Inr (Some ''foo-1.0.zip#md5=0a''),
         set_fname_and_hash (Some ''foo-1.0.zip#md5=0a'')
          (PkgFile_init ''foo'' ''1.0'' (Some ''/srv/foo-1.0.zip'') (Some ''/srv'') (Some ''foo-1.0.zip'') None))"
proof -
  let ?r = "PkgFile_init ''foo'' ''1.0'' (Some ''/srv/foo-1.0.zip'') (Some ''/srv'') (Some ''foo-1.0.zip'') None"
  have r: "relfn_unix ?r = Some ''foo-1.0.zip''" "fname_and_hash_slot ?r = None"
    by (simp_all add: PkgFile_init_def replace_backslash_def backslash_def)
  have first: "fname_and_hash (\<lambda>p a. Inr ''0a'') ?r ''md5''
     = (Inr (Some ''foo-1.0.zip#md5=0a''), set_fname_and_hash (Some ''foo-1.0.zip#md5=0a'') ?r)"
    by (simp add: fname_and_hash_def r format_field_def Let_def)
  show ?thesis
    using first fname_and_hash_memoized [OF first, of "\<lambda>p a. Inr ''ff''" "''sha256''"]
    by simp
qed

section \<open>Properties of the guesser\<close>

text \<open>
  C4.  The claim is that a file name ending in \<open>.asc\<close> is guessed as the name without
  these four characters.  The code calls \<^verbatim>\<open>rstrip(".asc")\<close>, which removes every trailing
  character among \<open>.\<close>, \<open>a\<close>, \<open>s\<close> and \<open>c\<close>: on \<open>foo-1.0.tar.gz.a.asc\<close> it leaves
  \<open>foo-1.0.tar.gz\<close>, which is guessed as foo 1.0, while the name without the suffix,
  \<open>foo-1.0.tar.gz.a\<close>, matches no archive suffix.
\<close>

theorem asc_suffix_rstrip_evaluated:
  "endswith ''foo-1.0.tar.gz.a.asc'' ''.asc''
   \<and> take (length ''foo-1.0.tar.gz.a.asc'' - 4) ''foo-1.0.tar.gz.a.asc'' = ''foo-1.0.tar.gz.a''
   \<and> rstrip ''foo-1.0.tar.gz.a.asc'' ''.asc'' = ''foo-1.0.tar.gz''
   \<and> guess_pkgname_and_version ''foo-1.0.tar.gz.a.asc'' = Tuple2 (Some ''foo'') (Some ''1.0'')
   \<and> guess_pkgname_and_version ''foo-1.0.tar.gz.a'' = PyNone"
  by code_simp

lemma endswith_iff: "endswith s p \<longleftrightarrow> (\<exists>pre. s = pre @ p)"
proof
  assume "endswith s p"
  then have "s = take (length s - length p) s @ p"
    by (metis append_take_drop_id endswith_def)
  then show "\<exists>pre. s = pre @ p" ..
next
  assume "\<exists>pre. s = pre @ p"
  then show "endswith s p" by (auto simp: endswith_def)
qed

text \<open>
  When the name under the suffix ends in a character other than these four, the suffix
  alone is removed.
\<close>

lemma guess_asc_suffix:
  assumes "CHR ''/'' \<notin> set inner" "inner \<noteq> []" "last inner \<notin> set ''.asc''"
  shows "guess_pkgname_and_version (inner @ ''.asc'') = guess_pkgname_and_version inner"
proof -
  have nb: "basename s = s" if "CHR ''/'' \<notin> set s" for s
  proof -
    have tw: "takeWhile (\<lambda>c. c \<noteq> CHR ''/'') (rev s) = rev s"
      using that by (intro takeWhile_eq_all_conv[THEN iffD2]) auto
    show ?thesis unfolding basename_def by (simp only: tw rev_rev_ident)
  qed
  have b: "basename (inner @ ''.asc'') = inner @ ''.asc''" "basename inner = inner"
    using assms(1) by (simp_all add: nb)
  have e: "endswith (inner @ ''.asc'') ''.asc''"
    by (simp add: endswith_def)
  obtain xs x where inner: "inner = xs @ [x]"
    using assms(2) by (cases inner rule: rev_cases) auto
  then have x: "x \<notin> set ''.asc''" using assms(3) by simp
  have r: "rstrip (inner @ ''.asc'') ''.asc'' = inner"
    using x by (simp add: rstrip_def inner)
  have n: "\<not> endswith inner ''.asc''"
  proof
    assume "endswith inner ''.asc''"
    then obtain pre where "inner = pre @ ''.asc''"
      using endswith_iff by blast
    then have "last inner = CHR ''c''" by simp
    then show False using assms(3) by simp
  qed
  show ?thesis
    by (simp add: guess_pkgname_and_version_def b e r n Let_def)
qed

text \<open>
  C10.  With \<open>p\<close> the base name of the path after the removal of the signature suffix:
  when \<open>p\<close> ends in \<open>.whl\<close> and the wheel pattern does not match, the guesser returns
  the pair of two \<^verbatim>\<open>None\<close>; when \<open>p\<close> does not end in \<open>.whl\<close> and no archive suffix is
  found, it returns \<^verbatim>\<open>None\<close>.  The pair is true as a condition and \<^verbatim>\<open>None\<close> is not, so a
  caller has to test the name as well: the scanner does, and yields nothing for such a
  file.
\<close>

theorem guess_no_match_not_uniform:
  assumes "p = (if endswith (basename path) ''.asc'' then rstrip (basename path) ''.asc''
                else basename path)"
  shows "(endswith p ''.whl'' \<and> wheel_file_re p = None
            \<longrightarrow> guess_pkgname_and_version path = Tuple2 None None)
    \<and> (\<not> endswith p ''.whl'' \<and> search archive_suffix_rx p = None
            \<longrightarrow> guess_pkgname_and_version path = PyNone)
    \<and> truthy (Tuple2 None None) \<and> \<not> truthy PyNone
    \<and> (is_allowed_path x \<and> guess_pkgname_and_version x = Tuple2 None None
            \<longrightarrow> listdir_file root' dirpath x True = [])"
  using assms
  by (simp add: guess_pkgname_and_version_def guess_pkgname_and_version_wheel_def Let_def
      truthy_def truthy_name_def listdir_file_def)

theorem guess_no_match_not_uniform_witness:
  "endswith ''foo.whl'' ''.whl'' \<and> wheel_file_re ''foo.whl'' = None
   \<and> guess_pkgname_and_version ''foo.whl'' = Tuple2 None None
   \<and> \<not> endswith ''readme.txt'' ''.whl'' \<and> search archive_suffix_rx ''readme.txt'' = None
   \<and> guess_pkgname_and_version ''readme.txt'' = PyNone
   \<and> is_allowed_path ''foo.whl''
   \<and> listdir_file ''/srv'' ''/srv'' ''foo.whl'' True = []"
proof -
  have p1: "''foo.whl'' = (if endswith (basename ''foo.whl'') ''.asc''
      then rstrip (basename ''foo.whl'') ''.asc'' else basename ''foo.whl'')"
    by code_simp
  have p2: "''readme.txt'' = (if endswith (basename ''readme.txt'') ''.asc''
      then rstrip (basename ''readme.txt'') ''.asc'' else basename ''readme.txt'')"
    by code_simp
  have h1: "endswith ''foo.whl'' ''.whl'' \<and> wheel_file_re ''foo.whl'' = None"
    by code_simp
  have h2: "\<not> endswith ''readme.txt'' ''.whl'' \<and> search archive_suffix_rx ''readme.txt'' = None"
    by code_simp
  have h3: "is_allowed_path ''foo.whl''" by code_simp
  show ?thesis
    using guess_no_match_not_uniform [OF p1, of "''foo.whl''" "''/srv''" "''/srv''"]
      guess_no_match_not_uniform [OF p2, of "''foo.whl''" "''/srv''" "''/srv''"] h1 h2 h3
    by simp
qed

subsection \<open>The wheel pattern\<close>

lemma lazy_dots_hit: "k taken s = Some r \<Longrightarrow> lazy_dots taken s k = Some r"
  by (cases s) auto

lemma lazy_dots_skip:
  assumes "\<And>t1 c t2. t = t1 @ c # t2 \<Longrightarrow> k (taken @ t1) (c # t2 @ rest) = None \<and> c \<noteq> newline"
  shows "lazy_dots taken (t @ rest) k = lazy_dots (taken @ t) rest k"
  using assms
proof (induction t arbitrary: taken)
  case Nil
  then show ?case by simp
next
  case (Cons c t)
  have first: "k taken (c # t @ rest) = None \<and> c \<noteq> newline"
    using Cons.prems [of "[]" c t] by simp
  have "lazy_dots (taken @ [c]) (t @ rest) k = lazy_dots ((taken @ [c]) @ t) rest k"
  proof (rule Cons.IH)
    fix t1 d t2
    assume "t = t1 @ d # t2"
    then have "c # t = (c # t1) @ d # t2" by simp
    then show "k ((taken @ [c]) @ t1) (d # t2 @ rest) = None \<and> d \<noteq> newline"
      using Cons.prems [of "c # t1" d t2] by simp
  qed
  then show ?case using first by simp
qed

lemma lazy_dots_none:
  assumes "\<And>t rest. s = t @ rest \<Longrightarrow> k (taken @ t) rest = None"
  shows "lazy_dots taken s k = None"
  using assms
proof (induction s arbitrary: taken)
  case Nil
  then show ?case by simp
next
  case (Cons c s)
  have first: "k taken (c # s) = None"
    using Cons.prems [of "[]" "c # s"] by simp
  have "lazy_dots (taken @ [c]) s k = None"
  proof (rule Cons.IH)
    fix t rest
    assume "s = t @ rest"
    then show "k ((taken @ [c]) @ t) rest = None"
      using Cons.prems [of "c # t" rest] by simp
  qed
  then show ?case using first by simp
qed

lemma lazy_dots_sound:
  assumes "lazy_dots taken s k = Some r"
  shows "\<exists>t rest. s = t @ rest \<and> newline \<notin> set t \<and> k (taken @ t) rest = Some r"
  using assms
proof (induction s arbitrary: taken)
  case Nil
  then show ?case by simp
next
  case (Cons c s)
  show ?case
  proof (cases "k taken (c # s)")
    case (Some r')
    then have "k (taken @ []) (c # s) = Some r" using Cons.prems by simp
    then have "c # s = [] @ (c # s) \<and> newline \<notin> set [] \<and> k (taken @ []) (c # s) = Some r"
      by simp
    then show ?thesis by blast
  next
    case None
    then have c: "c \<noteq> newline" and "lazy_dots (taken @ [c]) s k = Some r"
      using Cons.prems by (auto split: if_splits)
    then obtain t rest where "s = t @ rest" "newline \<notin> set t" "k ((taken @ [c]) @ t) rest = Some r"
      using Cons.IH by blast
    then have "c # s = (c # t) @ rest \<and> newline \<notin> set (c # t) \<and> k (taken @ c # t) rest = Some r"
      using c by simp
    then show ?thesis by blast
  qed
qed

lemma lazy_dots_complete:
  assumes "k (taken @ t) rest = Some r" "newline \<notin> set t"
  shows "\<exists>r'. lazy_dots taken (t @ rest) k = Some r'"
  using assms
proof (induction t arbitrary: taken)
  case Nil
  then show ?case using lazy_dots_hit [of k taken rest r] by auto
next
  case (Cons c t)
  then have "\<exists>r'. lazy_dots (taken @ [c]) (t @ rest) k = Some r'" by simp
  then show ?case using Cons.prems(2) by (cases "k taken (c # t @ rest)") auto
qed

lemma dash_then_Cons [simp]:
  "dash_then (c # cs) k = (if c = CHR ''-'' then k cs else None)"
  "dash_then [] k = None"
  by (simp_all add: dash_then_def)

lemma dash_thenE:
  assumes "dash_then s k = Some r"
  obtains s' where "s = CHR ''-'' # s'" "k s' = Some r"
  using assms by (cases s) (auto split: if_splits)

lemma lazy_plus_sound:
  assumes "lazy_plus s k = Some r"
  obtains t rest where "s = t @ rest" "t \<noteq> []" "newline \<notin> set t" "k t rest = Some r"
proof -
  obtain c cs where s: "s = c # cs" "c \<noteq> newline" "lazy_dots [c] cs k = Some r"
    using assms by (cases s) (auto simp: lazy_plus_def split: if_splits)
  obtain t rest where t: "cs = t @ rest" "newline \<notin> set t" "k ([c] @ t) rest = Some r"
    using lazy_dots_sound [OF s(3)] by blast
  show thesis
  proof (rule that)
    show "s = (c # t) @ rest" using s t by simp
    show "c # t \<noteq> []" by simp
    show "newline \<notin> set (c # t)" using s t by auto
    show "k (c # t) rest = Some r" using t by simp
  qed
qed

lemma lazy_plus_complete:
  assumes "k t rest = Some r" "t \<noteq> []" "newline \<notin> set t"
  shows "\<exists>r'. lazy_plus (t @ rest) k = Some r'"
proof -
  obtain c cs where t: "t = c # cs" using assms(2) by (cases t) auto
  then have "\<exists>r'. lazy_dots [c] (cs @ rest) k = Some r'"
    using lazy_dots_complete [of k "[c]" cs rest r] assms by simp
  then show ?thesis using t assms(3) by (auto simp: lazy_plus_def)
qed

text \<open>The three tags need three dashes.\<close>

lemma lazy_plus_dash_count:
  assumes "lazy_plus s (\<lambda>x s'. dash_then s' (k x)) = Some r"
  obtains x s' where "k x s' = Some r" "count_list s' CHR ''-'' < count_list s CHR ''-''"
proof -
  obtain t rest where t: "s = t @ rest" "dash_then rest (k t) = Some r"
    using assms by (rule lazy_plus_sound)
  obtain s' where s': "rest = CHR ''-'' # s'" "k t s' = Some r"
    using t(2) by (rule dash_thenE)
  show thesis
  proof (rule that)
    show "k t s' = Some r" by (rule s'(2))
    show "count_list s' CHR ''-'' < count_list s CHR ''-''" by (simp add: t(1) s'(1))
  qed
qed

lemma wheel_tags_dashes:
  assumes "wheel_tags s = Some r"
  shows "3 \<le> count_list s CHR ''-''"
proof -
  obtain s1 where s1: "s = CHR ''-'' # s1"
    "lazy_plus s1 (\<lambda>pyver s. dash_then s (\<lambda>s. lazy_plus s (\<lambda>abi s.
       dash_then s (\<lambda>s. lazy_plus s (\<lambda>plat s.
       (case match_seq (map (\<lambda>a c. c = a) ''.whl'') s of
          None \<Rightarrow> None
        | Some rest \<Rightarrow> if dollar rest then Some () else None)))))) = Some r"
    using assms unfolding wheel_tags_def by (rule dash_thenE)
  obtain x2 s2 where s2: "lazy_plus s2 (\<lambda>abi s.
       dash_then s (\<lambda>s. lazy_plus s (\<lambda>plat s.
       (case match_seq (map (\<lambda>a c. c = a) ''.whl'') s of
          None \<Rightarrow> None
        | Some rest \<Rightarrow> if dollar rest then Some () else None)))) = Some r"
    "count_list s2 CHR ''-'' < count_list s1 CHR ''-''"
    using s1(2) by (rule lazy_plus_dash_count)
  obtain x3 s3 where s3: "count_list s3 CHR ''-'' < count_list s2 CHR ''-''"
    using s2(1) by (rule lazy_plus_dash_count)
  show ?thesis using s1(1) s2(2) s3 by simp
qed

lemma wheel_componentD:
  assumes "wheel_component s"
  shows "s \<noteq> []" "CHR ''-'' \<notin> set s" "CHR ''/'' \<notin> set s" "newline \<notin> set s"
  using assms by (auto simp: wheel_component_def list_all_iff)

lemma match_seq_lit:
  "match_seq (map (\<lambda>a c. c = a) lit) s = Some rest \<longleftrightarrow> s = lit @ rest"
proof (induction lit arbitrary: s)
  case Nil
  then show ?case by auto
next
  case (Cons a lit)
  then show ?case by (cases s) auto
qed

lemma whl_end:
  "(case match_seq (map (\<lambda>a c. c = a) ''.whl'') ''.whl'' of
      None \<Rightarrow> None
    | Some rest \<Rightarrow> if dollar rest then Some () else None) = Some ()"
  by (simp add: dollar_def)

lemma wheel_tags_ok:
  assumes "wheel_component p" "wheel_component a" "wheel_component l"
  shows "wheel_tags (CHR ''-'' # p @ CHR ''-'' # a @ CHR ''-'' # l @ ''.whl'') = Some ()"
proof -
  define Kplat :: "string \<Rightarrow> string \<Rightarrow> unit option" where
    "Kplat = (\<lambda>plat s. case match_seq (map (\<lambda>a c. c = a) ''.whl'') s of
          None \<Rightarrow> None
        | Some rest \<Rightarrow> if dollar rest then Some () else None)"
  define Kabi :: "string \<Rightarrow> string \<Rightarrow> unit option" where
    "Kabi = (\<lambda>abi s. dash_then s (\<lambda>s. lazy_plus s Kplat))"
  define Kpy :: "string \<Rightarrow> string \<Rightarrow> unit option" where
    "Kpy = (\<lambda>pyver s. dash_then s (\<lambda>s. lazy_plus s Kabi))"
  have tags: "wheel_tags s = dash_then s (\<lambda>s. lazy_plus s Kpy)" for s
    by (simp add: wheel_tags_def Kpy_def Kabi_def Kplat_def)
  have "Kplat l ''.whl'' = Some ()"
    unfolding Kplat_def by (rule whl_end)
  then have "\<exists>r'. lazy_plus (l @ ''.whl'') Kplat = Some r'"
    using assms(3) by (intro lazy_plus_complete) (auto dest: wheel_componentD)
  then have 1: "lazy_plus (l @ ''.whl'') Kplat = Some ()" by simp
  then have "Kabi a (CHR ''-'' # l @ ''.whl'') = Some ()"
    by (simp add: Kabi_def)
  then have "\<exists>r'. lazy_plus (a @ CHR ''-'' # l @ ''.whl'') Kabi = Some r'"
    using assms(2) by (intro lazy_plus_complete) (auto dest: wheel_componentD)
  then have 2: "lazy_plus (a @ CHR ''-'' # l @ ''.whl'') Kabi = Some ()" by simp
  then have "Kpy p (CHR ''-'' # a @ CHR ''-'' # l @ ''.whl'') = Some ()"
    by (simp add: Kpy_def)
  then have "\<exists>r'. lazy_plus (p @ CHR ''-'' # a @ CHR ''-'' # l @ ''.whl'') Kpy = Some r'"
    using assms(1) by (intro lazy_plus_complete) (auto dest: wheel_componentD)
  then have 3: "lazy_plus (p @ CHR ''-'' # a @ CHR ''-'' # l @ ''.whl'') Kpy = Some ()" by simp
  then show ?thesis by (simp add: tags)
qed

lemma wheel_tags_not_dash: "c \<noteq> CHR ''-'' \<Longrightarrow> wheel_tags (c # s) = None"
  by (simp add: wheel_tags_def)

lemma dist_info_none:
  assumes "s \<noteq> []" "last s = CHR ''l''"
  shows "(case match_seq (map (\<lambda>a c. c = a) ''.dist-info'') s of
            None \<Rightarrow> None
          | Some rest \<Rightarrow> if dollar rest then Some None else None) = (None :: string option option)"
proof (cases "match_seq (map (\<lambda>a c. c = a) ''.dist-info'') s")
  case None
  then show ?thesis by simp
next
  case (Some rest)
  then have s: "s = ''.dist-info'' @ rest" by (simp only: match_seq_lit)
  have "\<not> dollar rest"
  proof
    assume "dollar rest"
    then have "last s = CHR ''o'' \<or> last s = newline"
      using s by (auto simp: dollar_def)
    then show False using assms(2) by (auto simp: newline_def)
  qed
  then show ?thesis using Some by simp
qed

lemma wheel_after_ver_not_dash:
  assumes "c \<noteq> CHR ''-''" "last (c # s) = CHR ''l''"
  shows "wheel_after_ver (c # s) = None"
  using assms dist_info_none [of "c # s"]
  by (simp add: wheel_after_ver_def wheel_tags_not_dash)

lemma count_list_suffix: "s = t @ rest \<Longrightarrow> count_list rest x \<le> count_list s x"
  by simp

lemma wheel_after_ver_no_build:
  assumes "wheel_component p" "wheel_component a" "wheel_component l"
  shows "wheel_after_ver (CHR ''-'' # p @ CHR ''-'' # a @ CHR ''-'' # l @ ''.whl'') = Some None"
proof -
  let ?R2 = "CHR ''-'' # a @ CHR ''-'' # l @ ''.whl''"
  define Kb :: "string \<Rightarrow> string \<Rightarrow> string option option" where
    "Kb = (\<lambda>build s. map_option (\<lambda>_. Some build) (wheel_tags s))"
  have two: "count_list (p @ ?R2) CHR ''-'' = 2"
    using assms by (auto dest: wheel_componentD)
  have none: "Kb x rest = None" if "count_list rest CHR ''-'' \<le> 2" for x rest
  proof (cases "wheel_tags rest")
    case None
    then show ?thesis by (simp add: Kb_def)
  next
    case (Some r)
    then show ?thesis using wheel_tags_dashes [of rest r] that by simp
  qed
  obtain p0 p' where p: "p = p0 # p'"
    using assms(1) by (cases p) (auto dest: wheel_componentD)
  have "lazy_dots [p0] (p' @ ?R2) Kb = None"
  proof (rule lazy_dots_none)
    fix t rest
    assume "p' @ ?R2 = t @ rest"
    then have "count_list rest CHR ''-'' \<le> count_list (p' @ ?R2) CHR ''-''"
      by (rule count_list_suffix)
    also have "\<dots> \<le> 2" using two by (simp add: p split: if_splits)
    finally show "Kb ([p0] @ t) rest = None" by (rule none)
  qed
  then have "lazy_digit_dots (p @ ?R2) Kb = None"
    by (simp add: lazy_digit_dots_def p)
  then have alt1: "dash_then (CHR ''-'' # p @ ?R2) (\<lambda>s. lazy_digit_dots s Kb) = None"
    by simp
  have alt2: "wheel_tags (CHR ''-'' # p @ ?R2) = Some ()"
    using assms by (rule wheel_tags_ok)
  show ?thesis
    using alt1 alt2 unfolding wheel_after_ver_def Kb_def by simp
qed

lemma wheel_after_ver_build:
  assumes "wheel_numbered b" "wheel_component p" "wheel_component a" "wheel_component l"
  shows "wheel_after_ver (CHR ''-'' # b @ CHR ''-'' # p @ CHR ''-'' # a @ CHR ''-'' # l @ ''.whl'')
         = Some (Some b)"
proof -
  let ?R = "CHR ''-'' # p @ CHR ''-'' # a @ CHR ''-'' # l @ ''.whl''"
  define Kb :: "string \<Rightarrow> string \<Rightarrow> string option option" where
    "Kb = (\<lambda>build s. map_option (\<lambda>_. Some build) (wheel_tags s))"
  have bc: "wheel_component b" using assms(1) by (simp add: wheel_numbered_def)
  obtain b0 b' where b: "b = b0 # b'" "is_digit b0"
    using assms(1) by (cases b) (auto simp: wheel_numbered_def dest: wheel_componentD)
  have "lazy_dots [b0] (b' @ ?R) Kb = lazy_dots ([b0] @ b') ?R Kb"
  proof (rule lazy_dots_skip)
    fix t1 c t2
    assume "b' = t1 @ c # t2"
    then have "c \<in> set b" by (simp add: b)
    then have "c \<noteq> CHR ''-''" "c \<noteq> newline"
      using bc by (auto dest: wheel_componentD)
    then show "Kb ([b0] @ t1) (c # t2 @ ?R) = None \<and> c \<noteq> newline"
      by (simp add: Kb_def wheel_tags_not_dash)
  qed
  also have "\<dots> = Some (Some b)"
  proof (rule lazy_dots_hit)
    show "Kb ([b0] @ b') ?R = Some (Some b)"
      using wheel_tags_ok [OF assms(2,3,4)] by (simp add: Kb_def b)
  qed
  finally have "lazy_digit_dots (b @ ?R) Kb = Some (Some b)"
    by (simp add: lazy_digit_dots_def b)
  then have "dash_then (CHR ''-'' # b @ ?R) (\<lambda>s. lazy_digit_dots s Kb) = Some (Some b)"
    by simp
  then show ?thesis
    unfolding wheel_after_ver_def Kb_def by simp
qed

lemma wheel_file_re_components:
  assumes "wheel_component n" "wheel_numbered v"
    and R: "wheel_after_ver (CHR ''-'' # R) = Some B" "last (CHR ''-'' # R) = CHR ''l''"
  shows "wheel_file_re (n @ CHR ''-'' # v @ CHR ''-'' # R) = Some (n, v, B)"
proof -
  define Kver :: "string \<Rightarrow> string \<Rightarrow> string \<Rightarrow> (string \<times> string \<times> string option) option" where
    "Kver = (\<lambda>name ver s. map_option (\<lambda>build. (name, ver, build)) (wheel_after_ver s))"
  define Kname :: "string \<Rightarrow> string \<Rightarrow> (string \<times> string \<times> string option) option" where
    "Kname = (\<lambda>name s. dash_then s (\<lambda>s. lazy_digit_dots s (Kver name)))"
  have re: "wheel_file_re s = lazy_plus s Kname" for s
    by (simp add: wheel_file_re_def Kname_def Kver_def)
  have vc: "wheel_component v" using assms(2) by (simp add: wheel_numbered_def)
  obtain v0 v' where v: "v = v0 # v'" "is_digit v0"
    using assms(2) by (cases v) (auto simp: wheel_numbered_def dest: wheel_componentD)
  obtain n0 n' where n: "n = n0 # n'" "n0 \<noteq> newline"
    using wheel_componentD(1,4) [OF assms(1)] by (cases n) auto
  have "lazy_dots [v0] (v' @ CHR ''-'' # R) (Kver n) = lazy_dots ([v0] @ v') (CHR ''-'' # R) (Kver n)"
  proof (rule lazy_dots_skip)
    fix t1 c t2
    assume "v' = t1 @ c # t2"
    then have "c \<in> set v" by (simp add: v)
    then have c: "c \<noteq> CHR ''-''" "c \<noteq> newline"
      using vc by (auto dest: wheel_componentD)
    have "last (c # t2 @ CHR ''-'' # R) = CHR ''l''" using R(2) by simp
    then have "wheel_after_ver (c # t2 @ CHR ''-'' # R) = None"
      using c(1) by (rule wheel_after_ver_not_dash[rotated])
    then show "Kver n ([v0] @ t1) (c # t2 @ CHR ''-'' # R) = None \<and> c \<noteq> newline"
      using c(2) by (simp add: Kver_def)
  qed
  also have "\<dots> = Some (n, v, B)"
    by (rule lazy_dots_hit) (use R(1) in \<open>simp add: Kver_def v\<close>)
  finally have ver: "Kname n (CHR ''-'' # v @ CHR ''-'' # R) = Some (n, v, B)"
    by (simp add: Kname_def lazy_digit_dots_def v)
  have "lazy_dots [n0] (n' @ CHR ''-'' # v @ CHR ''-'' # R) Kname
        = lazy_dots ([n0] @ n') (CHR ''-'' # v @ CHR ''-'' # R) Kname"
  proof (rule lazy_dots_skip)
    fix t1 c t2
    assume "n' = t1 @ c # t2"
    then have "c \<in> set n" by (simp add: n)
    then have c: "c \<noteq> CHR ''-''" "c \<noteq> newline"
      using assms(1) by (auto dest: wheel_componentD)
    then show "Kname ([n0] @ t1) (c # t2 @ CHR ''-'' # v @ CHR ''-'' # R) = None \<and> c \<noteq> newline"
      by (simp add: Kname_def)
  qed
  also have "\<dots> = Some (n, v, B)"
    by (rule lazy_dots_hit) (use ver in \<open>simp add: n\<close>)
  finally show ?thesis
    by (simp add: re lazy_plus_def n)
qed

lemma basename_no_slash: "CHR ''/'' \<notin> set s \<Longrightarrow> basename s = s"
proof -
  assume "CHR ''/'' \<notin> set s"
  then have tw: "takeWhile (\<lambda>c. c \<noteq> CHR ''/'') (rev s) = rev s"
    by (intro takeWhile_eq_all_conv[THEN iffD2]) auto
  show ?thesis unfolding basename_def by (simp only: tw rev_rev_ident)
qed

lemma guess_whl:
  assumes "CHR ''/'' \<notin> set s"
  shows "guess_pkgname_and_version (s @ ''.whl'') = guess_pkgname_and_version_wheel (s @ ''.whl'')"
proof -
  have b: "basename (s @ ''.whl'') = s @ ''.whl''"
    using assms by (intro basename_no_slash) simp
  have w: "endswith (s @ ''.whl'') ''.whl''"
    using endswith_iff by blast
  have a: "\<not> endswith (s @ ''.whl'') ''.asc''"
  proof
    assume "endswith (s @ ''.whl'') ''.asc''"
    then obtain pre where "s @ ''.whl'' = pre @ ''.asc''"
      using endswith_iff by blast
    then have "last (s @ ''.whl'') = last (pre @ ''.asc'')" by simp
    then show False by simp
  qed
  show ?thesis
    by (simp only: guess_pkgname_and_version_def b a w Let_def if_True if_False)
qed

text \<open>
  C6.  For a wheel file name built from a name, a version, a Python tag, an ABI tag and
  a platform tag, the guesser returns the name and the version; with a build tag
  between the version and the Python tag it returns the name and the version, a dash
  and the build tag.  The components are those of the grammar: not empty, free of the
  dash that separates them, the version and the build tag beginning with a digit.  In
  particular \<open>sampleproject-1.2.0-1-py3-none-any.whl\<close> gives sampleproject and
  \<open>1.2.0-1\<close>.
\<close>

theorem wheel_grammar_guessed:
  assumes "wheel_component n" "wheel_numbered v"
    "wheel_component p" "wheel_component a" "wheel_component l"
  shows "guess_pkgname_and_version (wheel_filename n v None p a l) = Tuple2 (Some n) (Some v)
    \<and> (wheel_numbered b \<longrightarrow>
         guess_pkgname_and_version (wheel_filename n v (Some b) p a l)
         = Tuple2 (Some n) (Some (v @ ''-'' @ b)))
    \<and> guess_pkgname_and_version ''sampleproject-1.2.0-1-py3-none-any.whl''
       = Tuple2 (Some ''sampleproject'') (Some ''1.2.0-1'')"
proof (intro conjI impI)
  have vc: "wheel_component v" using assms(2) by (simp add: wheel_numbered_def)
  note ns = wheel_componentD(3) [OF assms(1)] wheel_componentD(3) [OF vc]
    wheel_componentD(3) [OF assms(3)] wheel_componentD(3) [OF assms(4)]
    wheel_componentD(3) [OF assms(5)]
  let ?R = "p @ CHR ''-'' # a @ CHR ''-'' # l @ ''.whl''"
  have f: "wheel_filename n v None p a l = (n @ CHR ''-'' # v @ CHR ''-'' # p @ CHR ''-'' # a @ CHR ''-'' # l) @ ''.whl''"
    by (simp add: wheel_filename_def)
  have "wheel_file_re (n @ CHR ''-'' # v @ CHR ''-'' # ?R) = Some (n, v, None)"
    using assms(1,2)
  proof (rule wheel_file_re_components)
    show "wheel_after_ver (CHR ''-'' # ?R) = Some None"
      using assms(3,4,5) by (rule wheel_after_ver_no_build)
    show "last (CHR ''-'' # ?R) = CHR ''l''" by simp
  qed
  then have "guess_pkgname_and_version_wheel (wheel_filename n v None p a l)
     = Tuple2 (Some n) (Some v)"
    by (simp add: guess_pkgname_and_version_wheel_def wheel_filename_def truthy_name_def)
  moreover have "guess_pkgname_and_version (wheel_filename n v None p a l)
     = guess_pkgname_and_version_wheel (wheel_filename n v None p a l)"
    unfolding f using ns by (intro guess_whl) simp
  ultimately show "guess_pkgname_and_version (wheel_filename n v None p a l)
     = Tuple2 (Some n) (Some v)"
    by simp
  show "guess_pkgname_and_version (wheel_filename n v (Some b) p a l)
         = Tuple2 (Some n) (Some (v @ ''-'' @ b))" if b: "wheel_numbered b"
  proof -
    have bc: "wheel_component b" using b by (simp add: wheel_numbered_def)
    let ?B = "b @ CHR ''-'' # ?R"
    have g: "wheel_filename n v (Some b) p a l
      = (n @ CHR ''-'' # v @ CHR ''-'' # b @ CHR ''-'' # p @ CHR ''-'' # a @ CHR ''-'' # l) @ ''.whl''"
      by (simp add: wheel_filename_def)
    have "wheel_file_re (n @ CHR ''-'' # v @ CHR ''-'' # ?B) = Some (n, v, Some b)"
      using assms(1,2)
    proof (rule wheel_file_re_components)
      show "wheel_after_ver (CHR ''-'' # ?B) = Some (Some b)"
        using b assms(3,4,5) by (rule wheel_after_ver_build)
      show "last (CHR ''-'' # ?B) = CHR ''l''" by simp
    qed
    moreover have "b \<noteq> []" using bc by (rule wheel_componentD)
    ultimately have "guess_pkgname_and_version_wheel (wheel_filename n v (Some b) p a l)
       = Tuple2 (Some n) (Some (v @ ''-'' @ b))"
      by (simp add: guess_pkgname_and_version_wheel_def wheel_filename_def truthy_name_def)
    moreover have "guess_pkgname_and_version (wheel_filename n v (Some b) p a l)
       = guess_pkgname_and_version_wheel (wheel_filename n v (Some b) p a l)"
      unfolding g using ns wheel_componentD(3) [OF bc] by (intro guess_whl) simp
    ultimately show ?thesis by simp
  qed
  show "guess_pkgname_and_version ''sampleproject-1.2.0-1-py3-none-any.whl''
       = Tuple2 (Some ''sampleproject'') (Some ''1.2.0-1'')"
    by code_simp
qed

theorem wheel_grammar_guessed_witness:
  "wheel_component ''sampleproject'' \<and> wheel_numbered ''1.2.0''
   \<and> wheel_component ''py3'' \<and> wheel_component ''none'' \<and> wheel_component ''any''
   \<and> wheel_numbered ''1''
   \<and> wheel_filename ''sampleproject'' ''1.2.0'' None ''py3'' ''none'' ''any''
      = ''sampleproject-1.2.0-py3-none-any.whl''
   \<and> wheel_filename ''sampleproject'' ''1.2.0'' (Some ''1'') ''py3'' ''none'' ''any''
      = ''sampleproject-1.2.0-1-py3-none-any.whl''
   \<and> guess_pkgname_and_version ''sampleproject-1.2.0-py3-none-any.whl''
      = Tuple2 (Some ''sampleproject'') (Some ''1.2.0'')
   \<and> guess_pkgname_and_version ''sampleproject-1.2.0-1-py3-none-any.whl''
      = Tuple2 (Some ''sampleproject'') (Some ''1.2.0-1'')"
proof -
  have c: "wheel_component ''sampleproject''" "wheel_numbered ''1.2.0''"
    "wheel_component ''py3''" "wheel_component ''none''" "wheel_component ''any''"
    by code_simp+
  have b: "wheel_numbered ''1''" by code_simp
  have f: "wheel_filename ''sampleproject'' ''1.2.0'' None ''py3'' ''none'' ''any''
      = ''sampleproject-1.2.0-py3-none-any.whl''"
    "wheel_filename ''sampleproject'' ''1.2.0'' (Some ''1'') ''py3'' ''none'' ''any''
      = ''sampleproject-1.2.0-1-py3-none-any.whl''"
    by (simp_all add: wheel_filename_def)
  show ?thesis
    using wheel_grammar_guessed [OF c, of "''1''"] b c f by simp
qed

section \<open>Properties of the scanner\<close>

subsection \<open>The check and the segments of a path\<close>

lemma split_at_not_Nil [simp]: "split_at sep s \<noteq> []"
  by (induction s) (auto split: list.splits)

lemma split_at_Cons:
  "split_at sep (c # cs) =
     (if sep c then [] # split_at sep cs
      else (c # hd (split_at sep cs)) # tl (split_at sep cs))"
  by (cases "split_at sep cs") auto

lemma startswith_dot [simp]:
  "startswith [] ''.'' = False" "startswith (c # cs) ''.'' \<longleftrightarrow> c = CHR ''.''"
  by (simp_all add: startswith_def)

lemma startswith_slash [simp]:
  "startswith [] ''/'' = False" "startswith (c # cs) ''/'' \<longleftrightarrow> c = CHR ''/''"
  by (simp_all add: startswith_def)

lemma startswith_slash_dot [simp]:
  "startswith (c # cs) ''/.'' \<longleftrightarrow> c = CHR ''/'' \<and> startswith cs ''.''"
  by (cases cs) (auto simp: startswith_def)

lemma no_dot_segment_Cons:
  "no_dot_segment (seg # segs) \<longleftrightarrow> \<not> startswith seg ''.'' \<and> no_dot_segment segs"
  by (simp add: no_dot_segment_def)

lemma no_dot_segment_append:
  "no_dot_segment (xs @ ys) \<longleftrightarrow> no_dot_segment xs \<and> no_dot_segment ys"
  by (simp add: no_dot_segment_def)

lemma no_dot_segment_split:
  "no_dot_segment (split_at sep q) \<longleftrightarrow>
     \<not> startswith (hd (split_at sep q)) ''.'' \<and> no_dot_segment (tl (split_at sep q))"
  by (cases "split_at sep q") (auto simp: no_dot_segment_def)

lemma segments_hd:
  "startswith (hd (split_at (\<lambda>c. c = CHR ''/'') q)) ''.'' \<longleftrightarrow> startswith q ''.''"
  by (cases q) (auto simp: split_at_Cons simp del: split_at.simps(2))

lemma segments_tl:
  "no_dot_segment (tl (split_at (\<lambda>c. c = CHR ''/'') q)) \<longleftrightarrow> \<not> contains q ''/.''"
proof (induction q)
  case Nil
  then show ?case by (simp add: startswith_def no_dot_segment_def)
next
  case (Cons c cs)
  show ?case
  proof (cases "c = CHR ''/''")
    case True
    then show ?thesis
      using Cons.IH no_dot_segment_split [of "\<lambda>c. c = CHR ''/''" cs]
      by (simp add: segments_hd)
  next
    case False
    then show ?thesis using Cons.IH by (simp add: split_at_Cons del: split_at.simps(2))
  qed
qed

lemma segments_all:
  "no_dot_segment (split_at (\<lambda>c. c = CHR ''/'') q)
   \<longleftrightarrow> \<not> (startswith q ''.'' \<or> contains q ''/.'')"
  using no_dot_segment_split [of "\<lambda>c. c = CHR ''/''" q]
  by (simp add: segments_hd segments_tl)

text \<open>Replacing the backslashes and cutting at slashes cuts at both.\<close>

lemma check_segments_replace:
  "check_segments p = split_at (\<lambda>c. c = CHR ''/'') (replace_backslash p)"
proof (induction p)
  case Nil
  then show ?case by (simp add: check_segments_def replace_backslash_def)
next
  case (Cons c cs)
  then have "split_at (\<lambda>c. c = CHR ''/'' \<or> c = backslash) cs
     = split_at (\<lambda>c. c = CHR ''/'') (map (\<lambda>c. if c = backslash then CHR ''/'' else c) cs)"
    by (simp add: check_segments_def replace_backslash_def)
  then show ?case
    by (simp add: check_segments_def replace_backslash_def)
qed

lemma is_allowed_path_check_segments:
  "is_allowed_path p \<longleftrightarrow> no_dot_segment (check_segments p)"
  by (simp add: is_allowed_path_def check_segments_replace segments_all Let_def)

lemma contains_replace_backslash:
  "contains q ''/.'' \<Longrightarrow> contains (replace_backslash q) ''/.''"
proof (induction q)
  case Nil
  then show ?case by (simp add: startswith_def)
next
  case (Cons c cs)
  have dot: "startswith (replace_backslash cs) ''.''" if "startswith cs ''.''"
    using that by (cases cs) (auto simp: replace_backslash_def backslash_def)
  show ?case
  proof (cases "startswith (c # cs) ''/.''")
    case True
    then show ?thesis using dot by (simp add: replace_backslash_def)
  next
    case False
    then have "contains cs ''/.''"
      using Cons.prems by auto
    then have "contains (replace_backslash cs) ''/.''"
      by (rule Cons.IH)
    then show ?thesis by (simp add: replace_backslash_def)
  qed
qed

lemma is_allowed_path_path_segments:
  assumes "is_allowed_path p"
  shows "no_dot_segment (path_segments p)"
proof -
  have "\<not> startswith p ''.''"
  proof
    assume "startswith p ''.''"
    then have "startswith (replace_backslash p) ''.''"
      by (cases p) (auto simp: replace_backslash_def backslash_def)
    then show False using assms by (simp add: is_allowed_path_def Let_def)
  qed
  moreover have "\<not> contains p ''/.''"
    using assms contains_replace_backslash [of p] by (auto simp: is_allowed_path_def Let_def)
  ultimately show ?thesis by (simp add: path_segments_def segments_all)
qed

lemma replace_backslash_none: "backslash \<notin> set p \<Longrightarrow> replace_backslash p = p"
  by (induction p) (auto simp: replace_backslash_def)

lemma path_segments_is_allowed_path:
  assumes "backslash \<notin> set p" "no_dot_segment (path_segments p)"
  shows "is_allowed_path p"
  using assms
  by (simp add: is_allowed_path_def Let_def replace_backslash_none path_segments_def segments_all)

lemma split_at_append_sep:
  "sep d \<Longrightarrow> split_at sep (a @ d # b) = split_at sep a @ split_at sep b"
  by (induction a) (auto split: list.splits)

lemma is_allowed_path_join:
  "is_allowed_path (a @ CHR ''/'' # b) \<longleftrightarrow> is_allowed_path a \<and> is_allowed_path b"
  by (simp add: is_allowed_path_check_segments check_segments_def split_at_append_sep
      no_dot_segment_append)

subsection \<open>The records of a walk\<close>

lemma listdir_file_record:
  assumes "r \<in> set (listdir_file root' dirpath x isfile)"
  shows "is_allowed_path x \<and> isfile \<and>
    (\<exists>n v. r = PkgFile_init n v (Some (path_join (path_join root' dirpath) x)) (Some root')
       (Some (drop (length root' + 1) (path_join (path_join root' dirpath) x))) None)"
proof -
  have ok: "is_allowed_path x \<and> isfile"
  proof (rule ccontr)
    assume "\<not> (is_allowed_path x \<and> isfile)"
    then have "listdir_file root' dirpath x isfile = []"
      by (auto simp: listdir_file_def Let_def)
    then show False using assms by simp
  qed
  show ?thesis
  proof (cases "guess_pkgname_and_version x")
    case PyNone
    then have "listdir_file root' dirpath x isfile = []"
      by (simp add: listdir_file_def truthy_def Let_def)
    then show ?thesis using assms by simp
  next
    case (Tuple2 a b)
    show ?thesis
    proof (cases "\<exists>n v. a = Some n \<and> b = Some v \<and> n \<noteq> []")
      case True
      then obtain n v where "a = Some n" "b = Some v" "n \<noteq> []" by blast
      then have "listdir_file root' dirpath x isfile =
        [PkgFile_init n v (Some (path_join (path_join root' dirpath) x)) (Some root')
          (Some (drop (length root' + 1) (path_join (path_join root' dirpath) x))) None]"
        using ok Tuple2 by (simp add: listdir_file_def truthy_def truthy_name_def Let_def)
      then show ?thesis using assms ok by auto
    next
      case False
      then have "listdir_file root' dirpath x isfile = []"
        using Tuple2 by (cases a; cases b) (simp_all add: listdir_file_def truthy_name_def Let_def)
      then show ?thesis using assms by simp
    qed
  qed
qed

lemma startswith_iff: "startswith s p \<longleftrightarrow> (\<exists>suf. s = p @ suf)"
proof
  assume "startswith s p"
  then have "s = p @ drop (length p) s"
    by (metis append_take_drop_id startswith_def)
  then show "\<exists>suf. s = p @ suf" ..
next
  assume "\<exists>suf. s = p @ suf"
  then show "startswith s p" by (auto simp: startswith_def)
qed

lemma endswith_slash_iff: "endswith s ''/'' \<longleftrightarrow> s \<noteq> [] \<and> last s = CHR ''/''"
proof
  assume "endswith s ''/''"
  then obtain pre where "s = pre @ ''/''" using endswith_iff by blast
  then show "s \<noteq> [] \<and> last s = CHR ''/''" by simp
next
  assume a: "s \<noteq> [] \<and> last s = CHR ''/''"
  then have "s = butlast s @ ''/''" using append_butlast_last_id [of s] by simp
  then show "endswith s ''/''" using endswith_iff by blast
qed

lemma valid_nameD:
  assumes "valid_name x"
  shows "x \<noteq> []" "\<not> startswith x ''/''" "\<not> endswith x ''/''"
proof -
  show "x \<noteq> []" using assms by (simp add: valid_name_def)
  show "\<not> startswith x ''/''" using assms by (cases x) (auto simp: valid_name_def)
  have "last x \<in> set x" using \<open>x \<noteq> []\<close> by (rule last_in_set)
  moreover have "CHR ''/'' \<notin> set x" using assms by (simp add: valid_name_def)
  ultimately have "last x \<noteq> CHR ''/''" by metis
  then show "\<not> endswith x ''/''" by (simp add: endswith_slash_iff)
qed

lemma path_join_relative:
  "\<not> startswith rel ''/'' \<Longrightarrow> path_join root' rel = path_join root' [] @ rel"
  by (simp add: path_join_def)

lemma path_join_absolute:
  "startswith root' ''/'' \<Longrightarrow> startswith (path_join root' rel) ''/''"
  by (cases root') (auto simp: path_join_def)

lemma path_join_walked_end:
  assumes "walked rel"
  shows "path_join root' rel \<noteq> []" "\<not> endswith (path_join root' rel) ''/''"
proof -
  have rel: "rel \<noteq> []" "\<not> startswith rel ''/''" "last rel \<noteq> CHR ''/''"
    using assms by (auto simp: walked_def endswith_slash_iff)
  have j: "path_join root' rel = path_join root' [] @ rel"
    using rel(2) by (rule path_join_relative)
  show "path_join root' rel \<noteq> []" unfolding j using rel(1) by simp
  have "last (path_join root' [] @ rel) = last rel" using rel(1) by simp
  then show "\<not> endswith (path_join root' rel) ''/''"
    unfolding j endswith_slash_iff using rel(3) by simp
qed

lemma walked_name: "valid_name x \<Longrightarrow> is_allowed_path x \<Longrightarrow> walked x"
  by (simp add: walked_def valid_nameD)

lemma walked_step:
  assumes "walked rel" "valid_name x" "is_allowed_path x"
  shows "walked (rel @ CHR ''/'' # x)"
proof -
  have rel: "rel \<noteq> []" "\<not> startswith rel ''/''" "is_allowed_path rel"
    using assms(1) by (auto simp: walked_def)
  have x: "last x \<noteq> CHR ''/''" "x \<noteq> []"
    using valid_nameD [OF assms(2)] by (auto simp: endswith_slash_iff)
  have 1: "is_allowed_path (rel @ CHR ''/'' # x)"
    using rel(3) assms(3) by (simp only: is_allowed_path_join)
  have 2: "\<not> startswith (rel @ CHR ''/'' # x) ''/''"
    using rel(1,2) by (cases rel) auto
  have "last (rel @ CHR ''/'' # x) = last x" using x(2) by simp
  then have 3: "\<not> endswith (rel @ CHR ''/'' # x) ''/''"
    unfolding endswith_slash_iff using x(1) by simp
  show ?thesis unfolding walked_def using 1 2 3 by simp
qed

lemma path_join_step:
  assumes "walked rel" "valid_name x"
  shows "path_join (path_join root' rel) x = path_join root' (rel @ CHR ''/'' # x)"
proof -
  have rel: "rel \<noteq> []" "\<not> startswith rel ''/''"
    using assms(1) by (auto simp: walked_def)
  then have r2: "\<not> startswith (rel @ CHR ''/'' # x) ''/''" by (cases rel) auto
  have j1: "path_join root' rel = path_join root' [] @ rel"
    using rel(2) by (rule path_join_relative)
  have j2: "path_join root' (rel @ CHR ''/'' # x) = path_join root' [] @ rel @ CHR ''/'' # x"
    using r2 by (rule path_join_relative)
  have "path_join (path_join root' rel) x = path_join root' rel @ CHR ''/'' # x"
    using path_join_walked_end [OF assms(1), of root'] valid_nameD [OF assms(2)]
    by (simp add: path_join_def)
  then show ?thesis unfolding j2 unfolding j1 by simp
qed

text \<open>
  A name in a directory of the walk: its path is the root joined with a relative path,
  which the walk can reach when the check accepts the name.
\<close>

lemma walk_name:
  assumes "startswith root' ''/''"
    and "dirpath = root' \<or> (\<exists>rel. dirpath = path_join root' rel \<and> walked rel)"
    and "valid_name x"
  obtains rel' where "path_join (path_join root' dirpath) x = path_join root' rel'"
    "path_join dirpath x = path_join root' rel'"
    "is_allowed_path x \<Longrightarrow> walked rel'"
proof -
  have "startswith dirpath ''/''"
    using assms(1,2) path_join_absolute by auto
  then have top: "path_join root' dirpath = dirpath"
    by (simp add: path_join_def)
  show thesis
  proof (cases "dirpath = root'")
    case True
    show thesis
    proof (rule that [of x])
      show "path_join (path_join root' dirpath) x = path_join root' x" using top True by simp
      show "path_join dirpath x = path_join root' x" using True by simp
      show "walked x" if "is_allowed_path x" using assms(3) that by (rule walked_name)
    qed
  next
    case False
    then obtain rel where rel: "dirpath = path_join root' rel" "walked rel"
      using assms(2) by blast
    have step: "path_join dirpath x = path_join root' (rel @ CHR ''/'' # x)"
      unfolding rel(1) using rel(2) assms(3) by (rule path_join_step)
    show thesis
    proof (rule that [of "rel @ CHR ''/'' # x"])
      show "path_join (path_join root' dirpath) x = path_join root' (rel @ CHR ''/'' # x)"
        using top step by simp
      show "path_join dirpath x = path_join root' (rel @ CHR ''/'' # x)" by (rule step)
      show "walked (rel @ CHR ''/'' # x)" if "is_allowed_path x"
        using rel(2) assms(3) that by (rule walked_step)
    qed
  qed
qed

lemma listdir_file_rel:
  assumes "r \<in> set (listdir_file root' dirpath x isfile)"
    and "startswith root' ''/''"
    and "dirpath = root' \<or> (\<exists>rel. dirpath = path_join root' rel \<and> walked rel)"
    and "valid_name x"
  shows "\<exists>rel. walked rel \<and> fn r = Some (path_join root' rel)
           \<and> relfn r = Some (drop (length root' + 1) (path_join root' rel))"
proof -
  obtain rel' where rel': "path_join (path_join root' dirpath) x = path_join root' rel'"
    "is_allowed_path x \<Longrightarrow> walked rel'"
    using walk_name [OF assms(2,3,4)] by metis
  have ok: "is_allowed_path x"
    using listdir_file_record [OF assms(1)] by blast
  obtain n v where r: "r = PkgFile_init n v (Some (path_join root' rel')) (Some root')
      (Some (drop (length root' + 1) (path_join root' rel'))) None"
    using listdir_file_record [OF assms(1)] unfolding rel'(1) by blast
  have "walked rel' \<and> fn r = Some (path_join root' rel')
           \<and> relfn r = Some (drop (length root' + 1) (path_join root' rel'))"
    using rel'(2) ok by (simp add: r PkgFile_init_def)
  then show ?thesis by blast
qed

lemma listdir_filenames_rel:
  assumes "r \<in> set (listdir_filenames root' dirpath es)"
    and "startswith root' ''/''"
    and "dirpath = root' \<or> (\<exists>rel. dirpath = path_join root' rel \<and> walked rel)"
    and "list_all wf_node es"
  shows "\<exists>rel. walked rel \<and> fn r = Some (path_join root' rel)
           \<and> relfn r = Some (drop (length root' + 1) (path_join root' rel))"
  using assms
proof (induction root' dirpath es rule: listdir_filenames.induct)
  case (1 root' dirpath)
  then show ?case by simp
next
  case (2 root' dirpath x es)
  then show ?case using listdir_file_rel [of r root' dirpath x True] by auto
next
  case (3 root' dirpath x es)
  then show ?case using listdir_file_rel [of r root' dirpath x False] by auto
next
  case (4 root' dirpath x children es)
  then show ?case by auto
qed

lemma listdir_walk_rel:
  "r \<in> set (listdir_walk root' dirpath entries) \<Longrightarrow> startswith root' ''/'' \<Longrightarrow>
     dirpath = root' \<or> (\<exists>rel. dirpath = path_join root' rel \<and> walked rel) \<Longrightarrow>
     list_all wf_node entries \<Longrightarrow>
     \<exists>rel. walked rel \<and> fn r = Some (path_join root' rel)
           \<and> relfn r = Some (drop (length root' + 1) (path_join root' rel))"
  and "r \<in> set (listdir_dirnames root' dirpath es) \<Longrightarrow> startswith root' ''/'' \<Longrightarrow>
     dirpath = root' \<or> (\<exists>rel. dirpath = path_join root' rel \<and> walked rel) \<Longrightarrow>
     list_all wf_node es \<Longrightarrow>
     \<exists>rel. walked rel \<and> fn r = Some (path_join root' rel)
           \<and> relfn r = Some (drop (length root' + 1) (path_join root' rel))"
proof (induction root' dirpath entries and root' dirpath es
    rule: listdir_walk_listdir_dirnames.induct)
  case (1 root' dirpath entries)
  then show ?case using listdir_filenames_rel [of r root' dirpath entries] by auto
next
  case (2 root' dirpath)
  then show ?case by simp
next
  case (3 root' dirpath x es)
  then show ?case by simp
next
  case (4 root' dirpath x es)
  then show ?case by simp
next
  case (5 root' dirpath x children es)
  show ?case
  proof (cases "r \<in> set (listdir_dirnames root' dirpath es)")
    case True
    then show ?thesis using "5.IH"(2) "5.prems" by simp
  next
    case False
    then have a: "is_allowed_path x"
      and r: "r \<in> set (listdir_walk root' (path_join dirpath x) children)"
      using "5.prems"(1) by (auto split: if_splits)
    have v: "valid_name x" "list_all wf_node children"
      using "5.prems"(4) by simp_all
    obtain rel' where "path_join dirpath x = path_join root' rel'" "walked rel'"
      using walk_name [OF "5.prems"(2,3) v(1)] a by metis
    then have "path_join dirpath x = root'
        \<or> (\<exists>rel. path_join dirpath x = path_join root' rel \<and> walked rel)"
      by blast
    then show ?thesis using "5.IH"(1) [OF a r "5.prems"(2) _ v(2)] by simp
  qed
qed

lemma relfn_relative:
  assumes "\<not> endswith root' ''/''" "root' \<noteq> []" "\<not> startswith rel ''/''"
  shows "drop (length root' + 1) (path_join root' rel) = rel"
  using assms by (simp add: path_join_def)

text \<open>
  C7 (as amended).  The check accepts a path exactly when none of its segments starts
  with a dot, the segments being cut at slashes and at backslashes alike: a path that it
  accepts has no segment between slashes that starts with a dot, and a path without
  backslashes is accepted exactly when it has none.  The scan prunes before it
  descends: a directory that the check rejects is left out of the walk with all that it
  holds.  For every absolute root and every tree of well-formed names, the path of
  every record that the scan yields is the root joined with a relative path that the
  check accepts, in which no directory name and no file name starts with a dot; this
  relative path is the one the record holds when the root does not end in a slash.
\<close>

theorem hidden_segments_never_scanned:
  "(is_allowed_path p \<longleftrightarrow> no_dot_segment (check_segments p))
   \<and> (is_allowed_path p \<longrightarrow> no_dot_segment (path_segments p))
   \<and> (backslash \<notin> set p \<and> no_dot_segment (path_segments p) \<longrightarrow> is_allowed_path p)
   \<and> (startswith root' ''/'' \<and> list_all wf_node entries \<and> r \<in> set (listdir root' entries)
      \<longrightarrow> (\<exists>rel. fn r = Some (path_join root' rel) \<and> walked rel
            \<and> no_dot_segment (path_segments rel) \<and> no_dot_segment (check_segments rel)
            \<and> (\<not> endswith root' ''/'' \<longrightarrow> relfn r = Some rel)))
   \<and> (\<not> is_allowed_path x
      \<longrightarrow> listdir_dirnames root' dirpath (Directory x children # es)
          = listdir_dirnames root' dirpath es)"
proof (intro conjI impI)
  show "is_allowed_path p \<longleftrightarrow> no_dot_segment (check_segments p)"
    by (rule is_allowed_path_check_segments)
next
  assume "is_allowed_path p"
  then show "no_dot_segment (path_segments p)"
    by (rule is_allowed_path_path_segments)
next
  assume "backslash \<notin> set p \<and> no_dot_segment (path_segments p)"
  then show "is_allowed_path p"
    using path_segments_is_allowed_path by blast
next
  assume h: "startswith root' ''/'' \<and> list_all wf_node entries
        \<and> r \<in> set (listdir root' entries)"
  then have "r \<in> set (listdir_walk root' root' entries)"
    by (simp add: listdir_def)
  then obtain rel where rel: "walked rel" "fn r = Some (path_join root' rel)"
    "relfn r = Some (drop (length root' + 1) (path_join root' rel))"
    using h listdir_walk_rel(1) [of r root' root' entries] by blast
  have a: "is_allowed_path rel" "\<not> startswith rel ''/''"
    using rel(1) by (simp_all add: walked_def)
  have "root' \<noteq> []" using h by (auto simp: startswith_def)
  then have "relfn r = Some rel" if "\<not> endswith root' ''/''"
    using relfn_relative [OF that _ a(2)] rel(3) by simp
  then have "fn r = Some (path_join root' rel) \<and> walked rel
            \<and> no_dot_segment (path_segments rel) \<and> no_dot_segment (check_segments rel)
            \<and> (\<not> endswith root' ''/'' \<longrightarrow> relfn r = Some rel)"
    using rel(1,2) a(1) is_allowed_path_path_segments is_allowed_path_check_segments
    by blast
  then show "\<exists>rel. fn r = Some (path_join root' rel) \<and> walked rel
            \<and> no_dot_segment (path_segments rel) \<and> no_dot_segment (check_segments rel)
            \<and> (\<not> endswith root' ''/'' \<longrightarrow> relfn r = Some rel)"
    by blast
next
  assume "\<not> is_allowed_path x"
  then show "listdir_dirnames root' dirpath (Directory x children # es)
          = listdir_dirnames root' dirpath es"
    by simp
qed

theorem hidden_segments_never_scanned_witness:
  "startswith ''/srv'' ''/'' \<and> \<not> endswith ''/srv'' ''/''
   \<and> list_all wf_node
        [RegularFile ''pkgA-1.0.tar.gz'',
         Directory ''.hidden'' [RegularFile ''pkgB-2.0.tar.gz''],
         Directory ''sub'' [RegularFile ''pkgC-2.0.zip'']]
   \<and> map relfn (listdir ''/srv''
        [RegularFile ''pkgA-1.0.tar.gz'',
         Directory ''.hidden'' [RegularFile ''pkgB-2.0.tar.gz''],
         Directory ''sub'' [RegularFile ''pkgC-2.0.zip'']])
      = [Some ''pkgA-1.0.tar.gz'', Some ''sub/pkgC-2.0.zip'']
   \<and> (\<exists>rel. fn (PkgFile_init ''pkgC'' ''2.0'' (Some ''/srv/sub/pkgC-2.0.zip'') (Some ''/srv'')
                    (Some ''sub/pkgC-2.0.zip'') None) = Some (path_join ''/srv'' rel)
          \<and> relfn (PkgFile_init ''pkgC'' ''2.0'' (Some ''/srv/sub/pkgC-2.0.zip'') (Some ''/srv'')
                    (Some ''sub/pkgC-2.0.zip'') None) = Some rel
          \<and> walked rel \<and> no_dot_segment (path_segments rel))
   \<and> \<not> is_allowed_path ''.hidden''
   \<and> backslash \<notin> set ''sub/pkgC-2.0.zip''
   \<and> no_dot_segment (path_segments ''sub/pkgC-2.0.zip'')
   \<and> is_allowed_path ''sub/pkgC-2.0.zip''"
proof -
  let ?tree = "[RegularFile ''pkgA-1.0.tar.gz'',
         Directory ''.hidden'' [RegularFile ''pkgB-2.0.tar.gz''],
         Directory ''sub'' [RegularFile ''pkgC-2.0.zip'']]"
  let ?r = "PkgFile_init ''pkgC'' ''2.0'' (Some ''/srv/sub/pkgC-2.0.zip'') (Some ''/srv'')
                    (Some ''sub/pkgC-2.0.zip'') None"
  have h1: "startswith ''/srv'' ''/''" "\<not> endswith ''/srv'' ''/''" by code_simp+
  have h2: "list_all wf_node ?tree" by code_simp
  have l: "listdir ''/srv'' ?tree =
    [PkgFile_init ''pkgA'' ''1.0'' (Some ''/srv/pkgA-1.0.tar.gz'') (Some ''/srv'')
                    (Some ''pkgA-1.0.tar.gz'') None, ?r]"
    by code_simp
  have h3: "?r \<in> set (listdir ''/srv'' ?tree)" by (simp only: l) simp
  have m: "map relfn (listdir ''/srv'' ?tree) = [Some ''pkgA-1.0.tar.gz'', Some ''sub/pkgC-2.0.zip'']"
    by (simp only: l) (simp add: PkgFile_init_def)
  have a: "\<not> is_allowed_path ''.hidden''" "backslash \<notin> set ''sub/pkgC-2.0.zip''"
    "no_dot_segment (path_segments ''sub/pkgC-2.0.zip'')"
    by code_simp+
  show ?thesis
    using hidden_segments_never_scanned
      [of "''sub/pkgC-2.0.zip''" "''/srv''" ?tree ?r "''.hidden''"] h1 h2 h3 m a
    by blast
qed

text \<open>
  On a path of \<^verbatim>\<open>posixpath\<close> a backslash is a character of a name: the path below is a
  single segment, which does not start with a dot, and the check rejects it.
\<close>

theorem check_rejects_backslash_dot_counterexample:
  "path_segments (''a'' @ backslash # ''.b-1.0.zip'') = [''a'' @ backslash # ''.b-1.0.zip'']
   \<and> no_dot_segment (path_segments (''a'' @ backslash # ''.b-1.0.zip''))
   \<and> \<not> is_allowed_path (''a'' @ backslash # ''.b-1.0.zip'')"
  by code_simp

text \<open>
  For the root directory \<open>/\<close> itself the slice \<^verbatim>\<open>fn[len(root) + 1:]\<close> cuts one
  character more than the separator, so that the relative path held by the record is
  not the path relative to the root.
\<close>

lemma listdir_root_directory:
  "map relfn (listdir ''/'' [RegularFile ''a.b-1.0.zip'']) = [Some ''.b-1.0.zip'']
   \<and> map fn (listdir ''/'' [RegularFile ''a.b-1.0.zip'']) = [Some (path_join ''/'' ''a.b-1.0.zip'')]"
  by code_simp

end
